theory Spec2Isabelle
  imports Complex_Main "HOL-Library.Sublist" "HOL-Library.Char_ord" "HOL-Library.List_Lexorder"
begin

section \<open>A content-based recommender: the embedding of \<open>mainRSystem.py\<close>\<close>

text \<open>
  The program tokenizes the genre text of every movie, builds tf-idf feature vectors over
  a sorted vocabulary, splits the ratings into a training and a test part, and predicts
  each test rating as a cosine-weighted average of the user's training ratings.

  Conventions of the embedding.
  \<^item> A \<open>DataFrame\<close> is the list of its rows; adding a column extends the row record.
  \<^item> Text is ASCII: a Python \<open>str\<close> is a \<open>string\<close>, and \<open>\w\<close> and \<open>lower()\<close> are
    modelled on the ASCII characters, where Python's Unicode rules agree with them.
  \<^item> A finite float is an exact real number (no rounding, no overflow); the values
    \<open>inf\<close>, \<open>-inf\<close> and \<open>nan\<close> that numpy returns where Python would raise are kept as
    values of their own, because the program branches on them.
  \<^item> A Python exception is the \<open>Inl\<close> of a sum type.
\<close>

datatype error = IndexError | KeyError | ValueError | ZeroDivisionError

subsection \<open>Tokenizer\<close>

definition lower_char :: "char \<Rightarrow> char" where
  "lower_char c =
     (if CHR ''A'' \<le> c \<and> c \<le> CHR ''Z'' then char_of (of_char c + (32::nat)) else c)"

text \<open>\<open>str.lower()\<close>.\<close>

definition lower :: "string \<Rightarrow> string" where
  "lower s = map lower_char s"

text \<open>The character class \<open>\w\<close>: letters, digits and the underscore.\<close>

definition is_word_char :: "char \<Rightarrow> bool" where
  "is_word_char c \<longleftrightarrow>
     (CHR ''a'' \<le> c \<and> c \<le> CHR ''z'') \<or> (CHR ''A'' \<le> c \<and> c \<le> CHR ''Z'') \<or>
     (CHR ''0'' \<le> c \<and> c \<le> CHR ''9'') \<or> c = CHR ''_''"

text \<open>The character class \<open>[\w\-]\<close>.\<close>

definition is_token_char :: "char \<Rightarrow> bool" where
  "is_token_char c \<longleftrightarrow> is_word_char c \<or> c = CHR ''-''"

text \<open>
  \<open>re.findall\<close> for a pattern \<open>[...]+\<close> whose character class is \<open>P\<close>: the scan goes from
  left to right; where the class matches, the greedy \<open>+\<close> takes every following
  character of the class and the scan resumes behind the match; elsewhere it moves on by
  one character.
\<close>

function findall_class :: "(char \<Rightarrow> bool) \<Rightarrow> string \<Rightarrow> string list" where
  "findall_class P [] = []"
| "findall_class P (c # cs) =
     (if P c then (c # takeWhile P cs) # findall_class P (dropWhile P cs)
      else findall_class P cs)"
  by pat_completeness auto
termination
  by (relation "measure (\<lambda>(P, s). length s)")
     (auto simp: length_dropWhile_le less_Suc_eq_le)

definition tokenize_string :: "string \<Rightarrow> string list" where
  "tokenize_string my_string = findall_class is_token_char (lower my_string)"

text \<open>
  The specification's wording, for comparison: \<open>ts\<close> is the sequence of maximal runs of
  \<open>P\<close>-characters of \<open>s\<close> when \<open>s\<close> is a separator stretch without any \<open>P\<close>-character and
  \<open>ts\<close> is empty, or \<open>s\<close> is such a stretch, then a non-empty run \<open>t\<close> of \<open>P\<close>-characters
  that the next character (if any) does not continue, then a rest whose runs are the
  remaining \<open>ts\<close>.
\<close>

inductive maximal_runs :: "(char \<Rightarrow> bool) \<Rightarrow> string \<Rightarrow> string list \<Rightarrow> bool" where
  no_run: "\<forall>c \<in> set sep. \<not> P c \<Longrightarrow> maximal_runs P sep []"
| next_run: "\<forall>c \<in> set sep. \<not> P c \<Longrightarrow> t \<noteq> [] \<Longrightarrow> \<forall>c \<in> set t. P c \<Longrightarrow>
     (rest = [] \<or> \<not> P (hd rest)) \<Longrightarrow> maximal_runs P rest ts \<Longrightarrow>
     maximal_runs P (sep @ t @ rest) (t # ts)"

subsection \<open>Errors and floats\<close>

text \<open>Sequencing of computations that may raise: the first exception ends the run.\<close>

definition ebind :: "error + 'a \<Rightarrow> ('a \<Rightarrow> error + 'b) \<Rightarrow> error + 'b" where
  "ebind m f = (case m of Inl e \<Rightarrow> Inl e | Inr x \<Rightarrow> f x)"

text \<open>A loop that computes one value per element and appends it to a list.\<close>

fun mapM :: "('a \<Rightarrow> error + 'b) \<Rightarrow> 'a list \<Rightarrow> error + 'b list" where
  "mapM f [] = Inr []"
| "mapM f (x # xs) = ebind (f x) (\<lambda>y. ebind (mapM f xs) (\<lambda>ys. Inr (y # ys)))"

text \<open>\<open>d[k]\<close> on a dictionary, kept as the list of its items in insertion order.\<close>

definition lookup :: "('k \<times> 'v) list \<Rightarrow> 'k \<Rightarrow> error + 'v" where
  "lookup d k = (case map_of d k of None \<Rightarrow> Inl KeyError | Some v \<Rightarrow> Inr v)"

text \<open>A float: a finite value, or one of \<open>inf\<close>, \<open>-inf\<close>, \<open>nan\<close>.\<close>

datatype npfloat = Fin real | PInf | NInf | NaN

definition inf_of_sign :: "real \<Rightarrow> npfloat" where
  "inf_of_sign x = (if x = 0 then NaN else if 0 < x then PInf else NInf)"

fun fneg :: "npfloat \<Rightarrow> npfloat" where
  "fneg (Fin x) = Fin (- x)"
| "fneg PInf = NInf"
| "fneg NInf = PInf"
| "fneg NaN = NaN"

fun fabs :: "npfloat \<Rightarrow> npfloat" where
  "fabs (Fin x) = Fin \<bar>x\<bar>"
| "fabs PInf = PInf"
| "fabs NInf = PInf"
| "fabs NaN = NaN"

fun fadd :: "npfloat \<Rightarrow> npfloat \<Rightarrow> npfloat" where
  "fadd (Fin x) (Fin y) = Fin (x + y)"
| "fadd NaN _ = NaN"
| "fadd _ NaN = NaN"
| "fadd PInf NInf = NaN"
| "fadd NInf PInf = NaN"
| "fadd PInf _ = PInf"
| "fadd _ PInf = PInf"
| "fadd NInf _ = NInf"
| "fadd _ NInf = NInf"

definition fsub :: "npfloat \<Rightarrow> npfloat \<Rightarrow> npfloat" where
  "fsub x y = fadd x (fneg y)"

fun fmul :: "npfloat \<Rightarrow> npfloat \<Rightarrow> npfloat" where
  "fmul (Fin x) (Fin y) = Fin (x * y)"
| "fmul NaN _ = NaN"
| "fmul _ NaN = NaN"
| "fmul (Fin x) PInf = inf_of_sign x"
| "fmul (Fin x) NInf = inf_of_sign (- x)"
| "fmul PInf (Fin y) = inf_of_sign y"
| "fmul NInf (Fin y) = inf_of_sign (- y)"
| "fmul PInf PInf = PInf"
| "fmul PInf NInf = NInf"
| "fmul NInf PInf = NInf"
| "fmul NInf NInf = PInf"

text \<open>
  Division of numpy scalars: a zero divisor gives \<open>inf\<close>, \<open>-inf\<close> or \<open>nan\<close> (and a
  warning), never an exception.
\<close>

fun fdiv :: "npfloat \<Rightarrow> npfloat \<Rightarrow> npfloat" where
  "fdiv (Fin x) (Fin y) = (if y = 0 then inf_of_sign x else Fin (x / y))"
| "fdiv NaN _ = NaN"
| "fdiv _ NaN = NaN"
| "fdiv (Fin x) PInf = Fin 0"
| "fdiv (Fin x) NInf = Fin 0"
| "fdiv PInf (Fin y) = (if 0 \<le> y then PInf else NInf)"
| "fdiv NInf (Fin y) = (if 0 \<le> y then NInf else PInf)"
| "fdiv PInf _ = NaN"
| "fdiv NInf _ = NaN"

text \<open>Division of Python floats and ints: a zero divisor raises.\<close>

definition py_div :: "npfloat \<Rightarrow> npfloat \<Rightarrow> error + npfloat" where
  "py_div x y = (if y = Fin 0 then Inl ZeroDivisionError else Inr (fdiv x y))"

text \<open>The comparison \<open>x > y\<close>; it is false whenever \<open>nan\<close> takes part.\<close>

fun fgt :: "npfloat \<Rightarrow> npfloat \<Rightarrow> bool" where
  "fgt (Fin x) (Fin y) = (y < x)"
| "fgt NaN _ = False"
| "fgt _ NaN = False"
| "fgt PInf PInf = False"
| "fgt PInf _ = True"
| "fgt NInf _ = False"
| "fgt (Fin x) PInf = False"
| "fgt (Fin x) NInf = True"

text \<open>\<open>math.sqrt\<close> and \<open>math.log10\<close>.\<close>

fun py_sqrt :: "npfloat \<Rightarrow> error + npfloat" where
  "py_sqrt (Fin x) = (if x < 0 then Inl ValueError else Inr (Fin (sqrt x)))"
| "py_sqrt PInf = Inr PInf"
| "py_sqrt NInf = Inl ValueError"
| "py_sqrt NaN = Inr NaN"

fun py_log10 :: "npfloat \<Rightarrow> error + npfloat" where
  "py_log10 (Fin x) = (if x \<le> 0 then Inl ValueError else Inr (Fin (log 10 x)))"
| "py_log10 PInf = Inr PInf"
| "py_log10 NInf = Inl ValueError"
| "py_log10 NaN = Inr NaN"

text \<open>The builtin \<open>sum\<close>: a left fold that starts from the integer 0.\<close>

definition fsum :: "npfloat list \<Rightarrow> npfloat" where
  "fsum xs = foldl fadd (Fin 0) xs"

subsection \<open>Movies, ratings and sparse vectors\<close>

text \<open>
  A \<open>csr_matrix\<close> of shape \<open>(1, shape1)\<close>: the stored column indices and, in the same
  order, the stored values (\<open>a.data\<close>).
\<close>

record csr =
  shape1 :: nat
  indices :: "nat list"
  data :: "npfloat list"

record movie =
  movieId :: int
  genres :: string

record tmovie = movie +
  tokens :: "string list"

record fmovie = tmovie +
  features :: csr

record rating_row =
  userId :: int
  movieId :: int
  rating :: real

text \<open>
  The constructor \<open>csr_matrix((data, (rows, column)), shape=(1, n))\<close>: an entry outside
  the shape is refused; the stored indices come out sorted and without duplicates, the
  values given for one column added up.
\<close>

definition csr_matrix :: "npfloat list \<Rightarrow> nat list \<Rightarrow> nat list \<Rightarrow> nat \<Rightarrow> error + csr" where
  "csr_matrix dat rows column n =
     (if length rows \<noteq> length dat \<or> length column \<noteq> length dat then Inl ValueError
      else if (\<exists>r \<in> set rows. 1 \<le> r) \<or> (\<exists>c \<in> set column. n \<le> c) then Inl ValueError
      else let idx = sorted_list_of_set (set column) in
        Inr \<lparr>shape1 = n, indices = idx,
             data = map (\<lambda>j. fsum (map snd (filter (\<lambda>cd. fst cd = j) (zip column dat)))) idx\<rparr>)"

text \<open>The element \<open>a[0, i]\<close>: zero where nothing is stored.\<close>

definition getitem :: "csr \<Rightarrow> nat \<Rightarrow> error + npfloat" where
  "getitem a i =
     (if shape1 a \<le> i then Inl IndexError
      else Inr (fsum (map snd (filter (\<lambda>jd. fst jd = i) (zip (indices a) (data a))))))"

subsection \<open>Tokenizing the catalogue\<close>

definition tokenize :: "movie list \<Rightarrow> tmovie list" where
  "tokenize movies =
     map (\<lambda>m. \<lparr>movie.movieId = movie.movieId m, genres = genres m,
                tokens = tokenize_string (genres m)\<rparr>) movies"

subsection \<open>Vocabulary and features\<close>

text \<open>The distinct elements of a list in the order of their first occurrence.\<close>

definition distinct_first :: "'a list \<Rightarrow> 'a list" where
  "distinct_first xs = rev (remdups (rev xs))"

text \<open>\<open>Counter(row)\<close>: the items in the order of first insertion.\<close>

definition counter :: "'a list \<Rightarrow> ('a \<times> nat) list" where
  "counter row = map (\<lambda>t. (t, count_list row t)) (distinct_first row)"

text \<open>
  \<open>Counter(row).most_common(1)\<close>: the first item of the greatest count, or nothing for
  an empty counter.
\<close>

definition most_common1 :: "'a list \<Rightarrow> ('a \<times> nat) list" where
  "most_common1 row =
     (case counter row of [] \<Rightarrow> []
      | x # xs \<Rightarrow> [foldl (\<lambda>best it. if snd best < snd it then it else best) x xs])"

text \<open>\<open>xs[0]\<close>.\<close>

definition first :: "'a list \<Rightarrow> error + 'a" where
  "first xs = (case xs of [] \<Rightarrow> Inl IndexError | x # _ \<Rightarrow> Inr x)"

text \<open>
  \<open>Series.str.contains(pat)\<close> searches for a regular expression. The patterns of this
  program are tokens, made of word characters and hyphens, which a regular expression
  matches literally: the search is for a contiguous occurrence of the token.
\<close>

definition str_contains :: "string \<Rightarrow> string \<Rightarrow> bool" where
  "str_contains s pat = sublist pat s"

text \<open>\<open>movies.genres.str.lower().str.contains(term).sum()\<close>.\<close>

definition doc_freq :: "('a movie_scheme) list \<Rightarrow> string \<Rightarrow> nat" where
  "doc_freq movies term = length (filter (\<lambda>m. str_contains (lower (genres m)) term) movies)"

text \<open>Lines 84 to 92: the sorted distinct tokens, numbered from 0.\<close>

definition token_list :: "tmovie list \<Rightarrow> string list" where
  "token_list movies = concat (map tokens movies)"

definition build_vocab :: "tmovie list \<Rightarrow> (string \<times> nat) list" where
  "build_vocab movies =
     map (\<lambda>(v, k). (k, v)) (enumerate 0 (sorted_list_of_set (set (token_list movies))))"

text \<open>Lines 94 to 96.\<close>

definition build_dfdict :: "tmovie list \<Rightarrow> (string \<times> nat) list \<Rightarrow> (string \<times> nat) list" where
  "build_dfdict movies vocab = map (\<lambda>v. (fst v, doc_freq movies (fst v))) vocab"

text \<open>
  Line 106. \<open>tf\<close>, \<open>max_k_tf\<close> and \<open>N\<close> are Python ints, so the first division is
  Python's; the document frequency is a numpy integer, so the second one is numpy's.
\<close>

definition tfidf :: "nat \<Rightarrow> nat \<Rightarrow> nat \<Rightarrow> (string \<times> nat) list \<Rightarrow> string \<Rightarrow> error + npfloat" where
  "tfidf tf max_k_tf N dfdict term =
     ebind (py_div (Fin (real tf)) (Fin (real max_k_tf))) (\<lambda>q.
     ebind (lookup dfdict term) (\<lambda>df.
     ebind (py_log10 (fdiv (Fin (real N)) (Fin (real df)))) (\<lambda>l.
     Inr (fmul q l))))"

text \<open>
  Lines 99 to 110 for one row. Python iterates \<open>set(row)\<close> in an order of its own; the
  model takes the order of first occurrence, and \<open>csr_matrix\<close> sorts the entries anyway.
\<close>

definition feature_row ::
  "(string \<times> nat) list \<Rightarrow> (string \<times> nat) list \<Rightarrow> nat \<Rightarrow> string list \<Rightarrow> error + csr" where
  "feature_row vocab dfdict N row =
     ebind (first (most_common1 row)) (\<lambda>(most_common_term, max_k_tf).
     ebind (mapM (\<lambda>term.
              ebind (tfidf (count_list row term) max_k_tf N dfdict term) (\<lambda>w.
              ebind (lookup vocab term) (\<lambda>c. Inr (w, 0, c))))
            (distinct_first row)) (\<lambda>entries.
     csr_matrix (map fst entries) (map (fst \<circ> snd) entries) (map (snd \<circ> snd) entries)
       (length vocab)))"

definition featurize :: "tmovie list \<Rightarrow> error + (fmovie list \<times> (string \<times> nat) list)" where
  "featurize movies =
     (let N = length movies;
          vocab = build_vocab movies;
          dfdict = build_dfdict movies vocab
      in ebind (mapM (\<lambda>m. feature_row vocab dfdict N (tokens m)) movies) (\<lambda>value.
         Inr (map (\<lambda>(m, v). \<lparr>movie.movieId = movie.movieId m, genres = genres m,
                               tokens = tokens m, features = v\<rparr>) (zip movies value),
              vocab)))"

subsection \<open>Splitting the ratings\<close>

text \<open>
  The slice \<open>xs[::k]\<close> for a step \<open>k > 0\<close> (called with \<open>c = 0\<close>): the first element is
  kept, and \<open>c\<close> counts down to the next element that is kept.
\<close>

fun every :: "nat \<Rightarrow> nat \<Rightarrow> 'a list \<Rightarrow> 'a list" where
  "every k c [] = []"
| "every k c (x # xs) = (if c = 0 then x # every k (k - 1) xs else every k (c - 1) xs)"

text \<open>\<open>ratings.iloc[idx]\<close> for a list of positions.\<close>

definition iloc :: "'a list \<Rightarrow> nat list \<Rightarrow> error + 'a list" where
  "iloc xs idx =
     (if \<forall>i \<in> set idx. i < length xs then Inr (map (\<lambda>i. xs ! i) idx) else Inl IndexError)"

definition train_test_split :: "'a list \<Rightarrow> error + ('a list \<times> 'a list)" where
  "train_test_split ratings =
     (let test = set (every 1000 0 [0..<length ratings]);
          train = sorted_list_of_set (set [0..<length ratings] - test);
          test = sorted_list_of_set test
      in ebind (iloc ratings train) (\<lambda>tr. ebind (iloc ratings test) (\<lambda>te. Inr (tr, te))))"

subsection \<open>Cosine similarity\<close>

text \<open>The \<open>while\<close> loop of lines 151 to 156.\<close>

function dot_loop :: "csr \<Rightarrow> csr \<Rightarrow> nat \<Rightarrow> nat \<Rightarrow> npfloat \<Rightarrow> error + npfloat" where
  "dot_loop a b i sz value =
     (if i < sz then
        ebind (getitem b i) (\<lambda>bi. ebind (getitem a i) (\<lambda>ai.
          dot_loop a b (i + 1) sz (fadd value (fmul bi ai))))
      else Inr value)"
  by pat_completeness auto
termination
  by (relation "measure (\<lambda>(a, b, i, sz, value). sz - i)") auto

declare dot_loop.simps [simp del]

text \<open>
  \<open>value\<close> starts as the Python float 0.0 and becomes a numpy scalar with the first
  \<open>value += ab\<close>; the norms are Python floats. So the last division is numpy's as soon as
  the loop has run once, and Python's only for vectors without any column.
\<close>

definition cosine_sim :: "csr \<Rightarrow> csr \<Rightarrow> error + npfloat" where
  "cosine_sim a b =
     ebind (py_sqrt (foldl (\<lambda>v i. fadd v (fmul i i)) (Fin 0) (data a))) (\<lambda>normA.
     ebind (py_sqrt (foldl (\<lambda>v i. fadd v (fmul i i)) (Fin 0) (data b))) (\<lambda>normB.
     ebind (dot_loop a b 0 (shape1 a) (Fin 0)) (\<lambda>value.
     if shape1 a = 0 then py_div value (fmul normA normB)
     else Inr (fdiv value (fmul normA normB)))))"

subsection \<open>Predictions\<close>

text \<open>\<open>movies[movies.movieId == mid]['features'].values[0]\<close>.\<close>

definition features_of :: "fmovie list \<Rightarrow> int \<Rightarrow> error + csr" where
  "features_of movies mid =
     ebind (first (filter (\<lambda>m. movie.movieId m = mid) movies)) (\<lambda>m. Inr (features m))"

text \<open>The body of the inner loop, lines 193 and 194.\<close>

definition pair_sim :: "fmovie list \<Rightarrow> rating_row \<Rightarrow> rating_row \<Rightarrow> error + npfloat" where
  "pair_sim movies test_row train_row =
     ebind (features_of movies (rating_row.movieId train_row)) (\<lambda>feat_train.
     ebind (features_of movies (rating_row.movieId test_row)) (\<lambda>feat_test.
     cosine_sim feat_train feat_test))"

text \<open>The body of the outer loop, lines 187 to 201, for one test row.\<close>

definition predict_row :: "fmovie list \<Rightarrow> rating_row list \<Rightarrow> rating_row \<Rightarrow> error + npfloat" where
  "predict_row movies ratings_train row =
     (let users = filter (\<lambda>r. userId r = userId row) ratings_train;
          rating_train = map rating users
      in ebind (mapM (pair_sim movies row) users) (\<lambda>arr.
         let cosine_arr = map (\<lambda>(a, b). fmul (Fin a) b) (zip rating_train arr);
             Scosine = fsum cosine_arr
         in if fgt Scosine (Fin 0) then Inr (fdiv (fsum cosine_arr) (fsum arr))
            else if rating_train = [] then Inl ZeroDivisionError
            else Inr (Fin (sum_list rating_train / real (length rating_train)))))"

definition make_predictions ::
  "fmovie list \<Rightarrow> rating_row list \<Rightarrow> rating_row list \<Rightarrow> error + npfloat list" where
  "make_predictions movies ratings_train ratings_test =
     mapM (predict_row movies ratings_train) ratings_test"

subsection \<open>Evaluation\<close>

text \<open>
  The difference of two one-dimensional arrays: elementwise for equal lengths, an array
  of length one is stretched, other lengths do not fit.
\<close>

definition np_sub :: "npfloat list \<Rightarrow> npfloat list \<Rightarrow> error + npfloat list" where
  "np_sub xs ys =
     (if length xs = length ys then Inr (map (\<lambda>(x, y). fsub x y) (zip xs ys))
      else if length xs = 1 then Inr (map (\<lambda>y. fsub (hd xs) y) ys)
      else if length ys = 1 then Inr (map (\<lambda>x. fsub x (hd ys)) xs)
      else Inl ValueError)"

text \<open>\<open>ndarray.mean()\<close>: the sum over the length, \<open>nan\<close> for the empty array.\<close>

definition np_mean :: "npfloat list \<Rightarrow> npfloat" where
  "np_mean xs = fdiv (fsum xs) (Fin (real (length xs)))"

definition mean_absolute_error :: "npfloat list \<Rightarrow> rating_row list \<Rightarrow> error + npfloat" where
  "mean_absolute_error predictions ratings_test =
     ebind (np_sub predictions (map (\<lambda>r. Fin (rating r)) ratings_test)) (\<lambda>d.
     Inr (np_mean (map fabs d)))"

subsection \<open>The specification's vocabulary\<close>

text \<open>
  The notions the specification states its properties in, for comparison with the code:
  the real value of a finite float, the dense element of a sparse vector, the dot product
  and the Euclidean norm of the stored weights.
\<close>

fun fval :: "npfloat \<Rightarrow> real" where
  "fval (Fin x) = x"
| "fval PInf = 0"
| "fval NInf = 0"
| "fval NaN = 0"

definition finite_data :: "csr \<Rightarrow> bool" where
  "finite_data a \<longleftrightarrow> list_all (\<lambda>x. x = Fin (fval x)) (data a)"

definition elem :: "csr \<Rightarrow> nat \<Rightarrow> real" where
  "elem a i = sum_list (map (fval \<circ> snd) (filter (\<lambda>jd. fst jd = i) (zip (indices a) (data a))))"

definition dot :: "csr \<Rightarrow> csr \<Rightarrow> real" where
  "dot a b = sum_list (map (\<lambda>i. elem b i * elem a i) [0..<shape1 a])"

definition l2_norm :: "csr \<Rightarrow> real" where
  "l2_norm a = sqrt (sum_list (map (\<lambda>x. fval x * fval x) (data a)))"

text \<open>The vocabulary index of a term (0 for a term outside the vocabulary).\<close>

definition index_of :: "(string \<times> nat) list \<Rightarrow> string \<Rightarrow> nat" where
  "index_of vocab t = (case map_of vocab t of Some j \<Rightarrow> j | None \<Rightarrow> 0)"

text \<open>
  The quantities of the tf-idf formula: the greatest count of a single term in a token
  sequence, and the number of movies whose lowercased genre text contains a term as a
  contiguous substring.
\<close>

definition max_tf :: "string list \<Rightarrow> nat" where
  "max_tf row = Max (count_list row ` set row)"

definition df_substring :: "('a movie_scheme) list \<Rightarrow> string \<Rightarrow> nat" where
  "df_substring movies t = card {k. k < length movies \<and> sublist t (lower (genres (movies ! k)))}"

text \<open>
  Closed forms for the proofs: the weight of a term of a token sequence, which is infinite
  when no genre text contains the term, and the feature vector of a token sequence.
\<close>

definition weight_of :: "tmovie list \<Rightarrow> string list \<Rightarrow> string \<Rightarrow> npfloat" where
  "weight_of ms row t =
     (if df_substring ms t = 0 then fmul (Fin (real (count_list row t) / real (max_tf row))) PInf
      else Fin (real (count_list row t) / real (max_tf row) *
                log 10 (real (length ms) / real (df_substring ms t))))"

definition feature_vec :: "tmovie list \<Rightarrow> string list \<Rightarrow> csr" where
  "feature_vec ms row =
     \<lparr>shape1 = length (build_vocab ms),
      indices = sorted_list_of_set (index_of (build_vocab ms) ` set row),
      data = map (\<lambda>j. weight_of ms row (fst (build_vocab ms ! j)))
               (sorted_list_of_set (index_of (build_vocab ms) ` set row))\<rparr>"

section \<open>Properties\<close>

subsection \<open>Tokenizer\<close>

lemma findall_class_skip:
  "\<forall>c \<in> set sep. \<not> P c \<Longrightarrow> findall_class P (sep @ s) = findall_class P s"
  by (induction sep) auto

lemma findall_class_no_run:
  "\<forall>c \<in> set sep. \<not> P c \<Longrightarrow> findall_class P sep = []"
  using findall_class_skip [of sep P "[]"] by simp

lemma takeWhile_run:
  "\<forall>c \<in> set t. P c \<Longrightarrow> rest = [] \<or> \<not> P (hd rest) \<Longrightarrow> takeWhile P (t @ rest) = t"
  by (cases rest) (auto simp: takeWhile_append2)

lemma dropWhile_run:
  "\<forall>c \<in> set t. P c \<Longrightarrow> rest = [] \<or> \<not> P (hd rest) \<Longrightarrow> dropWhile P (t @ rest) = rest"
  by (cases rest) (auto simp: dropWhile_append2)

lemma findall_class_run:
  "t \<noteq> [] \<Longrightarrow> \<forall>c \<in> set t. P c \<Longrightarrow> rest = [] \<or> \<not> P (hd rest) \<Longrightarrow>
   findall_class P (t @ rest) = t # findall_class P rest"
proof (cases t)
  case Nil
  assume "t \<noteq> []"
  with Nil show ?thesis by simp
next
  case (Cons c t')
  assume a: "\<forall>c \<in> set t. P c" and r: "rest = [] \<or> \<not> P (hd rest)"
  from a Cons have t': "\<forall>c \<in> set t'. P c" and c: "P c" by auto
  show ?thesis
    using c takeWhile_run [OF t' r] dropWhile_run [OF t' r] by (simp add: Cons)
qed

lemma maximal_runs_findall: "maximal_runs P s ts \<Longrightarrow> findall_class P s = ts"
proof (induction rule: maximal_runs.induct)
  case (no_run sep P)
  then show ?case by (simp add: findall_class_no_run)
next
  case (next_run sep P t rest ts)
  then show ?case by (simp add: findall_class_skip findall_class_run)
qed

lemma maximal_runs_skip:
  assumes "maximal_runs P s ts" and "\<not> P c"
  shows "maximal_runs P (c # s) ts"
  using assms
proof (cases rule: maximal_runs.cases)
  case no_run
  with assms(2) have "\<forall>x \<in> set (c # s). \<not> P x" by simp
  then show ?thesis unfolding no_run(1) by (rule maximal_runs.no_run)
next
  case (next_run sep t rest ts')
  from next_run(3) assms(2) have "\<forall>x \<in> set (c # sep). \<not> P x" by simp
  from maximal_runs.next_run [OF this next_run(4,5,6,7)]
  show ?thesis using next_run(1,2) by simp
qed

lemma findall_maximal_runs: "maximal_runs P s (findall_class P s)"
proof (induction P s rule: findall_class.induct)
  case (1 P)
  show ?case by (auto intro: maximal_runs.no_run)
next
  case (2 P c cs)
  show ?case
  proof (cases "P c")
    case True
    have sep: "\<forall>x \<in> set ([]::string). \<not> P x" by simp
    have ne: "c # takeWhile P cs \<noteq> []" by simp
    have allP: "\<forall>x \<in> set (c # takeWhile P cs). P x"
      using True by (auto dest: set_takeWhileD)
    have stop: "dropWhile P cs = [] \<or> \<not> P (hd (dropWhile P cs))"
      using hd_dropWhile [of P cs] by blast
    from maximal_runs.next_run [OF sep ne allP stop "2.IH"(1) [OF True]]
    show ?thesis using True by simp
  next
    case False
    with "2.IH"(2) maximal_runs_skip show ?thesis by simp
  qed
qed

lemma of_char_lower_char:
  "of_char (lower_char c) = (if 65 \<le> (of_char c :: nat) \<and> (of_char c :: nat) \<le> 90 then of_char c + 32 else (of_char c :: nat))"
  by (simp add: lower_char_def less_eq_char_def)

lemma char_eq_code: "c = d \<longleftrightarrow> (of_char c :: nat) = of_char d"
  by simp

lemma is_token_char_code:
  "is_token_char c \<longleftrightarrow>
     (97 \<le> (of_char c :: nat) \<and> (of_char c :: nat) \<le> 122) \<or>
     (65 \<le> (of_char c :: nat) \<and> (of_char c :: nat) \<le> 90) \<or>
     (48 \<le> (of_char c :: nat) \<and> (of_char c :: nat) \<le> 57) \<or>
     (of_char c :: nat) = 95 \<or> (of_char c :: nat) = 45"
  by (simp add: is_token_char_def is_word_char_def less_eq_char_def char_eq_code)

lemma is_token_char_lower [simp]: "is_token_char (lower_char c) \<longleftrightarrow> is_token_char c"
  unfolding is_token_char_code of_char_lower_char by auto

text \<open>
  Claim C5. For every input string, \<open>tokenize_string\<close> returns the sequence of maximal
  runs of word characters and hyphens of the lowercased string, in order: the result is
  \<open>ts\<close> exactly when \<open>ts\<close> is that sequence. \<open>"Horror|Romance"\<close> gives
  \<open>["horror", "romance"]\<close>, \<open>"Sci-Fi"\<close> gives \<open>["sci-fi"]\<close>, and the empty string and
  every string of separators only give the empty sequence.
\<close>

theorem tokenize_string_maximal_runs:
  "(\<forall>s ts. tokenize_string s = ts \<longleftrightarrow> maximal_runs is_token_char (lower s) ts) \<and>
   tokenize_string ''Horror|Romance'' = [''horror'', ''romance''] \<and>
   tokenize_string ''Sci-Fi'' = [''sci-fi''] \<and>
   tokenize_string [] = [] \<and>
   (\<forall>s. (\<forall>c \<in> set s. \<not> is_token_char c) \<longrightarrow> tokenize_string s = [])"
proof -
  have a: "\<forall>s ts. tokenize_string s = ts \<longleftrightarrow> maximal_runs is_token_char (lower s) ts"
    unfolding tokenize_string_def
    using maximal_runs_findall findall_maximal_runs by blast
  have b: "tokenize_string ''Horror|Romance'' = [''horror'', ''romance'']" by code_simp
  have c: "tokenize_string ''Sci-Fi'' = [''sci-fi'']" by code_simp
  have d: "tokenize_string [] = []" by (simp add: tokenize_string_def lower_def)
  have e: "\<forall>s. (\<forall>c \<in> set s. \<not> is_token_char c) \<longrightarrow> tokenize_string s = []"
    by (simp add: tokenize_string_def lower_def findall_class_no_run)
  from a b c d e show ?thesis by blast
qed

theorem tokenize_string_maximal_runs_witness:
  "maximal_runs is_token_char (lower ''Sci-Fi'') [''sci-fi''] \<and> tokenize_string ''| |'' = []"
proof -
  have h: "\<forall>c \<in> set ''| |''. \<not> is_token_char c" by code_simp
  have t: "tokenize_string ''Sci-Fi'' = [''sci-fi'']" by code_simp
  from tokenize_string_maximal_runs h t show ?thesis by blast
qed

subsection \<open>Dataset splitter\<close>

lemma every_nths:
  "0 < k \<Longrightarrow> every k c xs = nths xs {i. c \<le> i \<and> k dvd (i - c)}"
proof (induction xs arbitrary: c)
  case Nil
  show ?case by simp
next
  case (Cons x xs)
  show ?case
  proof (cases "c = 0")
    case True
    have "{j. Suc j \<in> {i. 0 \<le> i \<and> k dvd (i - 0)}} = {i. k - 1 \<le> i \<and> k dvd (i - (k - 1))}"
    proof (rule set_eqI)
      fix j
      show "j \<in> {j. Suc j \<in> {i. 0 \<le> i \<and> k dvd (i - 0)}} \<longleftrightarrow>
            j \<in> {i. k - 1 \<le> i \<and> k dvd (i - (k - 1))}"
      proof (cases "k - 1 \<le> j")
        case True
        with Cons.prems have "Suc j = (j - (k - 1)) + k" by simp
        then have "k dvd Suc j \<longleftrightarrow> k dvd (j - (k - 1))"
          by (metis dvd_add_triv_right_iff)
        with True show ?thesis by simp
      next
        case False
        then have "Suc j < k" "0 < Suc j" by simp_all
        then have "\<not> k dvd Suc j" using nat_dvd_not_less by blast
        with False show ?thesis by simp
      qed
    qed
    with True Cons.IH [OF Cons.prems, of "k - 1"] show ?thesis
      by (simp add: nths_Cons)
  next
    case False
    have "{j. Suc j \<in> {i. c \<le> i \<and> k dvd (i - c)}} = {i. c - 1 \<le> i \<and> k dvd (i - (c - 1))}"
      using False by auto
    with False Cons.IH [OF Cons.prems, of "c - 1"] show ?thesis
      by (simp add: nths_Cons)
  qed
qed

lemma set_every_upt:
  "0 < k \<Longrightarrow> set (every k 0 [0..<n]) = {i. i < n \<and> k dvd i}"
proof -
  assume k: "0 < k"
  have "set (every k 0 [0..<n]) = {[0..<n] ! i |i. i < n \<and> k dvd i}"
    using k by (simp add: every_nths set_nths)
  also have "\<dots> = {i. i < n \<and> k dvd i}"
  proof (rule set_eqI)
    fix x
    have "x < n \<and> k dvd x \<Longrightarrow> \<exists>i. x = [0..<n] ! i \<and> i < n \<and> k dvd i"
      by (rule exI [of _ x]) simp
    then show "x \<in> {[0..<n] ! i |i. i < n \<and> k dvd i} \<longleftrightarrow> x \<in> {i. i < n \<and> k dvd i}"
      by auto
  qed
  finally show ?thesis .
qed

lemma sorted_list_of_filter_upt:
  "sorted_list_of_set {i. i < n \<and> P i} = filter P [0..<n]"
proof -
  have eq: "{i. i < n \<and> P i} = set (filter P [0..<n])" by auto
  have "sorted (filter P [0..<n])" "distinct (filter P [0..<n])"
    by (simp_all add: sorted_wrt_filter)
  then have "sorted_list_of_set (set (filter P [0..<n])) = filter P [0..<n]"
    by (rule sorted_list_of_set.idem_if_sorted_distinct)
  with eq show ?thesis by presburger
qed

lemma iloc_filter_upt:
  "iloc xs (filter P [0..<length xs]) = Inr (map (\<lambda>i. xs ! i) (filter P [0..<length xs]))"
  by (simp add: iloc_def)

lemma train_test_split_eq:
  "train_test_split ratings =
     Inr (map (\<lambda>i. ratings ! i) (filter (\<lambda>i. \<not> 1000 dvd i) [0..<length ratings]),
          map (\<lambda>i. ratings ! i) (filter (\<lambda>i. 1000 dvd i) [0..<length ratings]))"
proof -
  let ?n = "length ratings"
  have te: "set (every 1000 0 [0..<?n]) = {i. i < ?n \<and> 1000 dvd i}"
    by (rule set_every_upt) simp
  have tr: "set [0..<?n] - {i. i < ?n \<and> 1000 dvd i} = {i. i < ?n \<and> \<not> 1000 dvd i}"
    by auto
  show ?thesis
    unfolding train_test_split_def Let_def te tr sorted_list_of_filter_upt iloc_filter_upt
    by (simp add: ebind_def)
qed

lemma test_positions_2500:
  "filter (\<lambda>i. 1000 dvd i) [0..<2500] = [0, 1000, 2000::nat]"
proof -
  have "set (filter (\<lambda>i. 1000 dvd i) [0..<2500]) = set [0, 1000, 2000::nat]"
  proof -
    have "(i::nat) < 2500 \<and> 1000 dvd i \<longleftrightarrow> i \<in> {0, 1000, 2000}" for i
      by (auto elim!: dvdE)
    then show ?thesis by auto
  qed
  moreover have "sorted (filter (\<lambda>i. 1000 dvd i) [0..<2500::nat])"
    by (simp add: sorted_wrt_filter)
  moreover have "distinct (filter (\<lambda>i. 1000 dvd i) [0..<2500::nat])" by simp
  moreover have "sorted [0, 1000, 2000::nat]" "distinct [0, 1000, 2000::nat]" by simp_all
  ultimately show ?thesis by (metis sorted_distinct_set_unique)
qed

lemma train_positions_2500:
  "length (filter (\<lambda>i. \<not> 1000 dvd i) [0..<2500::nat]) = 2497"
  using sum_length_filter_compl [of "\<lambda>i. 1000 dvd i" "[0..<2500::nat]"]
  by (simp add: test_positions_2500)

text \<open>
  Claim C6. For every ratings collection, \<open>train_test_split\<close> returns (it never raises)
  as test subset the rows at the positions 0, 1000, 2000, ... in the original order and as
  training subset all other rows in their original relative order; the two sets of
  positions are disjoint and together they are all positions. A collection of 2500 rows
  gives the 3 test rows of the positions 0, 1000 and 2000 and 2497 training rows.
\<close>

theorem train_test_split_positions:
  "train_test_split ratings =
     Inr (map (\<lambda>i. ratings ! i) (filter (\<lambda>i. \<not> 1000 dvd i) [0..<length ratings]),
          map (\<lambda>i. ratings ! i) (filter (\<lambda>i. 1000 dvd i) [0..<length ratings])) \<and>
   set (filter (\<lambda>i. \<not> 1000 dvd i) [0..<length ratings]) \<inter>
     set (filter (\<lambda>i. 1000 dvd i) [0..<length ratings]) = {} \<and>
   set (filter (\<lambda>i. \<not> 1000 dvd i) [0..<length ratings]) \<union>
     set (filter (\<lambda>i. 1000 dvd i) [0..<length ratings]) = {0..<length ratings} \<and>
   (length ratings = 2500 \<longrightarrow>
     (\<exists>tr te. train_test_split ratings = Inr (tr, te) \<and> length te = 3 \<and> length tr = 2497 \<and>
        te = [ratings ! 0, ratings ! 1000, ratings ! 2000]))"
proof -
  have d: "set (filter (\<lambda>i. \<not> 1000 dvd i) [0..<length ratings]) \<inter>
     set (filter (\<lambda>i. 1000 dvd i) [0..<length ratings]) = {}" by auto
  have u: "set (filter (\<lambda>i. \<not> 1000 dvd i) [0..<length ratings]) \<union>
     set (filter (\<lambda>i. 1000 dvd i) [0..<length ratings]) = {0..<length ratings}" by auto
  have c: "\<exists>tr te. train_test_split ratings = Inr (tr, te) \<and> length te = 3 \<and>
      length tr = 2497 \<and> te = [ratings ! 0, ratings ! 1000, ratings ! 2000]"
    if "length ratings = 2500"
    unfolding train_test_split_eq [of ratings] that
    by (simp add: test_positions_2500 train_positions_2500)
  from train_test_split_eq [of ratings] d u c show ?thesis by blast
qed

theorem train_test_split_positions_witness:
  "\<exists>tr te. train_test_split [0..<2500] = Inr (tr, te) \<and> length te = 3 \<and> length tr = 2497 \<and>
     te = [0, 1000, 2000]"
proof -
  have h: "length [0..<2500::nat] = 2500" by simp
  from train_test_split_positions [of "[0..<2500::nat]"] h
  have "\<exists>tr te. train_test_split [0..<2500::nat] = Inr (tr, te) \<and> length te = 3 \<and>
      length tr = 2497 \<and> te = [[0..<2500] ! 0, [0..<2500] ! 1000, [0..<2500] ! 2000]"
    by blast
  then show ?thesis by simp
qed

subsection \<open>Evaluator\<close>

lemma foldl_fadd_Fin: "foldl fadd (Fin s) (map Fin xs) = Fin (s + sum_list xs)"
  by (induction xs arbitrary: s) (simp_all add: add.assoc)

lemma fsum_Fin: "fsum (map Fin xs) = Fin (sum_list xs)"
  by (simp add: fsum_def foldl_fadd_Fin)

lemma np_sub_Fin:
  "length ps = length rs \<Longrightarrow>
   np_sub (map Fin ps) (map Fin rs) = Inr (map Fin (map (\<lambda>(p, r). p - r) (zip ps rs)))"
  by (simp add: np_sub_def zip_map_map fsub_def split_def)

lemma mae_Fin:
  assumes "length ps = length rs"
  shows "mean_absolute_error (map Fin ps) rs =
         Inr (fdiv (Fin (sum_list (map (\<lambda>(p, r). \<bar>p - rating r\<bar>) (zip ps rs))))
                   (Fin (real (length ps))))"
proof -
  have m: "map (\<lambda>r. Fin (rating r)) rs = map Fin (map rating rs)" by simp
  have l: "length ps = length (map rating rs)" using assms by simp
  have f: "map fabs (map Fin xs) = map Fin (map abs xs)" for xs by simp
  have z: "map abs (map (\<lambda>(p, r). p - r) (zip ps (map rating rs))) =
           map (\<lambda>(p, r). \<bar>p - rating r\<bar>) (zip ps rs)"
    by (simp add: zip_map2 split_def)
  show ?thesis
    unfolding mean_absolute_error_def m np_sub_Fin [OF l] ebind_def np_mean_def
    by (simp only: sum.case f z fsum_Fin length_map length_zip) (simp add: assms)
qed

text \<open>
  Claim C9, amended. For non-empty prediction and actual-rating sequences of equal
  length, \<open>mean_absolute_error\<close> returns the mean of the absolute differences, a
  non-negative real number; when the predictions are the actual ratings it returns 0.
\<close>

theorem mean_absolute_error_mean:
  assumes "length ps = length rs" and "ps \<noteq> []"
  shows "mean_absolute_error (map Fin ps) rs =
           Inr (Fin (sum_list (map (\<lambda>(p, r). \<bar>p - rating r\<bar>) (zip ps rs)) / real (length ps))) \<and>
         0 \<le> sum_list (map (\<lambda>(p, r). \<bar>p - rating r\<bar>) (zip ps rs)) / real (length ps) \<and>
         mean_absolute_error (map (\<lambda>r. Fin (rating r)) rs) rs = Inr (Fin 0)"
proof -
  from assms have n: "real (length ps) \<noteq> 0" "real (length rs) \<noteq> 0" by auto
  have a: "mean_absolute_error (map Fin ps) rs =
           Inr (Fin (sum_list (map (\<lambda>(p, r). \<bar>p - rating r\<bar>) (zip ps rs)) / real (length ps)))"
    using n by (simp add: mae_Fin [OF assms(1)])
  have "0 \<le> sum_list (map (\<lambda>(p, r). \<bar>p - rating r\<bar>) (zip ps rs))"
    by (rule sum_list_nonneg) auto
  then have b: "0 \<le> sum_list (map (\<lambda>(p, r). \<bar>p - rating r\<bar>) (zip ps rs)) / real (length ps)"
    by simp
  have z: "map (\<lambda>(p, r). \<bar>p - rating r\<bar>) (zip (map rating rs) rs) = map (\<lambda>r. 0) rs"
    by (simp add: zip_map1 zip_same_conv_map)
  have "mean_absolute_error (map Fin (map rating rs)) rs =
        Inr (fdiv (Fin (sum_list (map (\<lambda>(p, r). \<bar>p - rating r\<bar>) (zip (map rating rs) rs))))
                  (Fin (real (length (map rating rs)))))"
    by (rule mae_Fin) simp
  then have "mean_absolute_error (map Fin (map rating rs)) rs = Inr (Fin 0)"
    unfolding z using n by simp
  then have c: "mean_absolute_error (map (\<lambda>r. Fin (rating r)) rs) rs = Inr (Fin 0)"
    by (simp add: comp_def)
  from a b c show ?thesis by blast
qed

theorem mean_absolute_error_mean_witness:
  "mean_absolute_error [Fin 3, Fin 5]
     [\<lparr>userId = 1, movieId = 1, rating = 4\<rparr>, \<lparr>userId = 1, movieId = 2, rating = 2\<rparr>] = Inr (Fin 2) \<and>
   mean_absolute_error [Fin 4, Fin 2]
     [\<lparr>userId = 1, movieId = 1, rating = 4\<rparr>, \<lparr>userId = 1, movieId = 2, rating = 2\<rparr>] = Inr (Fin 0)"
  using mean_absolute_error_mean [of "[3, 5]"
      "[\<lparr>userId = 1, movieId = 1, rating = 4\<rparr>, \<lparr>userId = 1, movieId = 2, rating = 2\<rparr>]"]
  by simp

theorem mean_absolute_error_empty: "mean_absolute_error [] [] = Inr NaN"
  by (simp add: mean_absolute_error_def np_sub_def ebind_def np_mean_def fsum_def inf_of_sign_def)

subsection \<open>Similarity engine\<close>

lemma finite_data_map: "finite_data a \<Longrightarrow> data a = map Fin (map fval (data a))"
  unfolding finite_data_def list_all_iff by (simp add: map_idI)

lemma foldl_squares_Fin:
  "foldl (\<lambda>v i. fadd v (fmul i i)) (Fin s) (map Fin xs) = Fin (s + sum_list (map (\<lambda>x. x * x) xs))"
  by (induction xs arbitrary: s) (simp_all add: add.assoc)

lemma py_sqrt_squares:
  assumes "finite_data a"
  shows "py_sqrt (foldl (\<lambda>v i. fadd v (fmul i i)) (Fin 0) (data a)) = Inr (Fin (l2_norm a))"
proof -
  have "foldl (\<lambda>v i. fadd v (fmul i i)) (Fin 0) (data a) =
        Fin (sum_list (map (\<lambda>x. x * x) (map fval (data a))))"
    using foldl_squares_Fin [of 0 "map fval (data a)"] finite_data_map [OF assms] by simp
  moreover have "0 \<le> sum_list (map (\<lambda>x. x * x) (map fval (data a)))"
    by (rule sum_list_nonneg) auto
  ultimately show ?thesis by (simp add: l2_norm_def comp_def)
qed

lemma finite_data_filter:
  assumes "finite_data a"
  shows "map snd (filter (\<lambda>jd. fst jd = i) (zip (indices a) (data a))) =
         map Fin (map (fval \<circ> snd) (filter (\<lambda>jd. fst jd = i) (zip (indices a) (data a))))"
proof -
  have "\<forall>jd \<in> set (filter (\<lambda>jd. fst jd = i) (zip (indices a) (data a))). snd jd = Fin (fval (snd jd))"
    using assms unfolding finite_data_def list_all_iff by (auto dest: set_zip_rightD)
  then show ?thesis by (simp add: map_idI cong: map_cong)
qed

lemma getitem_Fin:
  "finite_data a \<Longrightarrow> i < shape1 a \<Longrightarrow> getitem a i = Inr (Fin (elem a i))"
  unfolding getitem_def elem_def
  by (simp add: finite_data_filter fsum_Fin del: map_map)

lemma dot_loop_Fin:
  assumes "finite_data a" "finite_data b" "n \<le> shape1 a" "n \<le> shape1 b"
  shows "i \<le> n \<Longrightarrow> dot_loop a b i n (Fin v) =
         Inr (Fin (v + sum_list (map (\<lambda>k. elem b k * elem a k) [i..<n])))"
proof (induction "n - i" arbitrary: i v)
  case 0
  then show ?case by (simp add: dot_loop.simps)
next
  case (Suc d)
  then have lt: "i < n" and d: "d = n - (i + 1)" and le: "i + 1 \<le> n" by simp_all
  from lt assms have ia: "i < shape1 a" and ib: "i < shape1 b" by simp_all
  have "dot_loop a b i n (Fin v) = dot_loop a b (i + 1) n (Fin (v + elem b i * elem a i))"
    using lt by (subst dot_loop.simps)
      (simp add: getitem_Fin [OF assms(1) ia] getitem_Fin [OF assms(2) ib] ebind_def)
  also have "\<dots> = Inr (Fin ((v + elem b i * elem a i) +
      sum_list (map (\<lambda>k. elem b k * elem a k) [i + 1..<n])))"
    by (rule Suc.hyps(1) [OF d le])
  finally show ?case using lt by (simp add: upt_conv_Cons add.assoc)
qed

lemma dot_loop_dot:
  assumes "finite_data a" "finite_data b" "shape1 a \<le> shape1 b"
  shows "dot_loop a b 0 (shape1 a) (Fin 0) = Inr (Fin (dot a b))"
  using dot_loop_Fin [OF assms(1,2) order_refl assms(3), of 0 0] by (simp add: dot_def)

lemma cosine_sim_Fin:
  assumes "finite_data a" "finite_data b" "shape1 a \<le> shape1 b"
  shows "cosine_sim a b =
     (if shape1 a = 0 then py_div (Fin (dot a b)) (Fin (l2_norm a * l2_norm b))
      else Inr (fdiv (Fin (dot a b)) (Fin (l2_norm a * l2_norm b))))"
  unfolding cosine_sim_def
  by (simp add: py_sqrt_squares assms dot_loop_dot ebind_def)

lemma sum_list_map_zero: "\<forall>x \<in> set xs. f x = (0::real) \<Longrightarrow> sum_list (map f xs) = 0"
  by (induction xs) auto

lemma l2_norm_zero_elem:
  assumes "finite_data a" "l2_norm a = 0"
  shows "elem a i = 0"
proof -
  have nn: "\<forall>x \<in> set (map (\<lambda>x. fval x * fval x) (data a)). 0 \<le> x" by auto
  from assms(2) have "sum_list (map (\<lambda>x. fval x * fval x) (data a)) = 0"
    unfolding l2_norm_def by simp
  with nn have "\<forall>x \<in> set (map (\<lambda>x. fval x * fval x) (data a)). x = 0"
    using sum_list_nonneg_eq_0_iff by blast
  then have z: "\<forall>x \<in> set (data a). fval x = 0" by simp
  have "\<forall>jd \<in> set (filter (\<lambda>jd. fst jd = i) (zip (indices a) (data a))). (fval \<circ> snd) jd = 0"
    using z by (auto dest: set_zip_rightD)
  then show ?thesis unfolding elem_def by (rule sum_list_map_zero)
qed

lemma dot_zero_norm:
  assumes "finite_data a" "finite_data b" "l2_norm a = 0 \<or> l2_norm b = 0"
  shows "dot a b = 0"
proof -
  have "elem b k * elem a k = 0" for k
    using assms l2_norm_zero_elem [of a k] l2_norm_zero_elem [of b k] by auto
  then show ?thesis unfolding dot_def by (intro sum_list_map_zero) simp
qed

text \<open>
  Claim C7, amended. When both vectors hold finite weights and have a non-zero Euclidean
  norm (and the second has a column for every column of the first), \<open>cosine_sim a b\<close>
  is \<open>dot(a, b) / (||a|| * ||b||)\<close>. When either norm is zero, the result is neither 0
  nor a fault for vectors with at least one column: the division is numpy's and returns
  \<open>nan\<close>. Only for vectors without any column is the division Python's, which raises
  \<open>ZeroDivisionError\<close>.
\<close>

theorem cosine_sim_quotient:
  assumes "finite_data a" and "finite_data b" and "shape1 a \<le> shape1 b"
  shows "(l2_norm a \<noteq> 0 \<and> l2_norm b \<noteq> 0 \<longrightarrow>
            cosine_sim a b = Inr (Fin (dot a b / (l2_norm a * l2_norm b)))) \<and>
         ((l2_norm a = 0 \<or> l2_norm b = 0) \<and> 0 < shape1 a \<longrightarrow> cosine_sim a b = Inr NaN) \<and>
         ((l2_norm a = 0 \<or> l2_norm b = 0) \<and> shape1 a = 0 \<longrightarrow>
            cosine_sim a b = Inl ZeroDivisionError)"
proof -
  have z: "dot a b = 0" if "l2_norm a = 0 \<or> l2_norm b = 0"
    using dot_zero_norm [OF assms(1,2) that] .
  show ?thesis
    unfolding cosine_sim_Fin [OF assms]
    by (auto simp: py_div_def inf_of_sign_def z)
qed

theorem cosine_sim_quotient_witness:
  "cosine_sim \<lparr>shape1 = 2, indices = [0], data = [Fin 1]\<rparr>
              \<lparr>shape1 = 2, indices = [0, 1], data = [Fin 1, Fin 0]\<rparr> = Inr (Fin 1) \<and>
   cosine_sim \<lparr>shape1 = 2, indices = [0], data = [Fin 0]\<rparr>
              \<lparr>shape1 = 2, indices = [0, 1], data = [Fin 1, Fin 0]\<rparr> = Inr NaN \<and>
   cosine_sim \<lparr>shape1 = 0, indices = [], data = []\<rparr>
              \<lparr>shape1 = 0, indices = [], data = []\<rparr> = Inl ZeroDivisionError"
  using cosine_sim_quotient [of "\<lparr>shape1 = 2, indices = [0], data = [Fin 1]\<rparr>"
      "\<lparr>shape1 = 2, indices = [0, 1], data = [Fin 1, Fin 0]\<rparr>"]
    cosine_sim_quotient [of "\<lparr>shape1 = 2, indices = [0], data = [Fin 0]\<rparr>"
      "\<lparr>shape1 = 2, indices = [0, 1], data = [Fin 1, Fin 0]\<rparr>"]
    cosine_sim_quotient [of "\<lparr>shape1 = 0, indices = [], data = []\<rparr>"
      "\<lparr>shape1 = 0, indices = [], data = []\<rparr>"]
  by (simp add: finite_data_def l2_norm_def dot_def elem_def upt_rec numeral_2_eq_2)

text \<open>
  A vector of one column that stores the weight 0, as \<open>featurize\<close> builds it for a term
  that occurs in every movie: its cosine similarity with itself is \<open>nan\<close>, a value and
  not a fault.
\<close>

theorem cosine_sim_zero_norm_nan:
  "cosine_sim \<lparr>shape1 = 1, indices = [0], data = [Fin 0]\<rparr>
              \<lparr>shape1 = 1, indices = [0], data = [Fin 0]\<rparr> = Inr NaN \<and>
   cosine_sim \<lparr>shape1 = 1, indices = [0], data = [Fin 0]\<rparr>
              \<lparr>shape1 = 1, indices = [0], data = [Fin 0]\<rparr> \<noteq> Inl ZeroDivisionError"
  by (simp add: cosine_sim_def dot_loop.simps getitem_def fsum_def ebind_def inf_of_sign_def)

subsection \<open>Vocabulary and feature builder: the closed form of featurize\<close>

lemma ebind_Inr_iff: "ebind m f = Inr y \<longleftrightarrow> (\<exists>x. m = Inr x \<and> f x = Inr y)"
  by (cases m) (simp_all add: ebind_def)

lemma ebind_Inr [simp]: "ebind (Inr x) f = f x"
  by (simp add: ebind_def)

lemma ebind_Inl [simp]: "ebind (Inl e) f = Inl e"
  by (simp add: ebind_def)

lemma mapM_Inr_map: "\<forall>x \<in> set xs. f x = Inr (g x) \<Longrightarrow> mapM f xs = Inr (map g xs)"
  by (induction xs) simp_all

lemma mapM_Inr_iff:
  "mapM f xs = Inr ys \<longleftrightarrow> length ys = length xs \<and> (\<forall>i < length xs. f (xs ! i) = Inr (ys ! i))"
proof (induction xs arbitrary: ys)
  case Nil
  show ?case by auto
next
  case (Cons x xs)
  show ?case
  proof (cases ys)
    case Nil
    then show ?thesis by (auto simp: ebind_Inr_iff)
  next
    case (Cons y ys')
    have "(\<forall>i < Suc (length xs). f ((x # xs) ! i) = Inr ((y # ys') ! i)) \<longleftrightarrow>
          f x = Inr y \<and> (\<forall>i < length xs. f (xs ! i) = Inr (ys' ! i))"
      by (auto simp: nth_Cons split: nat.splits)
    then show ?thesis using Cons.IH [of ys'] Cons by (auto simp: ebind_Inr_iff)
  qed
qed

lemma mapM_Inl: "mapM f xs = Inl e \<Longrightarrow> \<exists>x \<in> set xs. f x = Inl e"
proof (induction xs)
  case Nil
  then show ?case by simp
next
  case (Cons x xs)
  then show ?case
    by (cases "f x"; cases "mapM f xs") auto
qed

lemma lookup_zip_upt:
  assumes "distinct ks"
  shows "lookup (zip ks [0..<length ks]) t = Inr j \<longleftrightarrow> j < length ks \<and> ks ! j = t"
proof -
  have "map_of (zip ks [0..<length ks]) t = Some j \<longleftrightarrow> j < length ks \<and> ks ! j = t"
  proof
    assume "map_of (zip ks [0..<length ks]) t = Some j"
    then have "(t, j) \<in> set (zip ks [0..<length ks])" by (rule map_of_SomeD)
    then show "j < length ks \<and> ks ! j = t" by (auto simp: set_zip)
  next
    assume a: "j < length ks \<and> ks ! j = t"
    then have "(t, j) \<in> set (zip ks [0..<length ks])" by (auto simp: set_zip)
    moreover have "distinct (map fst (zip ks [0..<length ks]))" using assms by simp
    ultimately show "map_of (zip ks [0..<length ks]) t = Some j" by (rule map_of_is_SomeI [rotated])
  qed
  then show ?thesis by (auto simp: lookup_def split: option.splits)
qed

lemma build_vocab_zip:
  "build_vocab ms = zip (sorted_list_of_set (set (token_list ms)))
                        [0..<length (sorted_list_of_set (set (token_list ms)))]"
  unfolding build_vocab_def enumerate_eq_zip
  by (subst zip_commute) simp

lemma build_vocab_keys: "map fst (build_vocab ms) = sorted_list_of_set (set (token_list ms))"
  by (simp add: build_vocab_zip)

lemma build_vocab_values: "map snd (build_vocab ms) = [0..<length (build_vocab ms)]"
  by (simp add: build_vocab_zip)

lemma set_token_list: "set (token_list ms) = (\<Union>m \<in> set ms. set (tokens m))"
  by (simp add: token_list_def)

lemma featurize_vocab: "featurize ms = Inr (fms, vocab) \<Longrightarrow> vocab = build_vocab ms"
  by (auto simp: featurize_def Let_def ebind_Inr_iff)


lemma fadd_zero_left [simp]: "fadd (Fin 0) x = x"
  by (cases x) simp_all

lemma fsum_single [simp]: "fsum [x] = x"
  by (simp add: fsum_def)

lemma fsum_Nil [simp]: "fsum [] = Fin 0"
  by (simp add: fsum_def)

lemma set_distinct_first [simp]: "set (distinct_first xs) = set xs"
  by (simp add: distinct_first_def)

lemma distinct_distinct_first [simp]: "distinct (distinct_first xs)"
  by (simp add: distinct_first_def)

lemma distinct_first_Nil_iff [simp]: "distinct_first xs = [] \<longleftrightarrow> xs = []"
  using set_distinct_first [of xs] by (metis set_empty)

lemma foldl_best_snd:
  "snd (foldl (\<lambda>best it. if snd best < snd it then it else best) x xs) =
   fold max (map snd xs) (snd (x :: 'a \<times> nat))"
  by (induction xs arbitrary: x) (auto simp: max_def)

lemma most_common1_count:
  assumes "row \<noteq> []"
  shows "\<exists>t. first (most_common1 row) = Inr (t, Max (count_list row ` set row))"
proof -
  from assms obtain x xs where c: "distinct_first row = x # xs"
    by (cases "distinct_first row") auto
  have s: "set row = set (x # xs)" using c set_distinct_first [of row] by simp
  let ?cnt = "\<lambda>t. (t, count_list row t)"
  have "snd (foldl (\<lambda>best it. if snd best < snd it then it else best) (?cnt x) (map ?cnt xs)) =
        fold max (map (count_list row) xs) (count_list row x)"
    by (simp add: foldl_best_snd comp_def)
  also have "\<dots> = Max (set (count_list row x # map (count_list row) xs))"
    by (rule Max.set_eq_fold [symmetric])
  also have "\<dots> = Max (count_list row ` set row)" unfolding s by simp
  finally have "snd (foldl (\<lambda>best it. if snd best < snd it then it else best) (?cnt x) (map ?cnt xs)) =
        Max (count_list row ` set row)" .
  then show ?thesis
    unfolding most_common1_def counter_def c first_def
    by (simp add: prod_eq_iff)
qed

lemma most_common1_empty: "first (most_common1 []) = Inl IndexError"
  by (simp add: most_common1_def counter_def distinct_first_def first_def)

lemma max_count_positive:
  assumes "t \<in> set row"
  shows "0 < count_list row t" and "count_list row t \<le> Max (count_list row ` set row)"
proof -
  show "0 < count_list row t" using assms count_list_0_iff [of row t] by (cases "count_list row t") auto
  show "count_list row t \<le> Max (count_list row ` set row)"
    using assms by (intro Max_ge) auto
qed

text \<open>The weight that line 106 computes, as a function of the document frequency.\<close>

lemma tfidf_value:
  assumes "0 < mx" and "0 < N" and "lookup dfdict t = Inr df"
  shows "tfidf tf mx N dfdict t =
         Inr (if df = 0 then fmul (Fin (real tf / real mx)) PInf
              else Fin (real tf / real mx * log 10 (real N / real df)))"
proof (cases "df = 0")
  case True
  with assms show ?thesis by (simp add: tfidf_def py_div_def inf_of_sign_def)
next
  case False
  with assms(2) have "\<not> real N / real df \<le> 0" by (simp add: not_le)
  with False assms show ?thesis by (simp add: tfidf_def py_div_def del: divide_le_0_iff)
qed

lemma csr_matrix_Inr:
  assumes "length rows = length dat" "length cols = length dat"
    "\<forall>r \<in> set rows. r = 0" "\<forall>c \<in> set cols. c < n"
  shows "csr_matrix dat rows cols n =
         Inr \<lparr>shape1 = n, indices = sorted_list_of_set (set cols),
              data = map (\<lambda>j. fsum (map snd (filter (\<lambda>cd. fst cd = j) (zip cols dat))))
                       (sorted_list_of_set (set cols))\<rparr>"
proof -
  have "\<not> (\<exists>r \<in> set rows. 1 \<le> r)" using assms(3) by auto
  moreover have "\<not> (\<exists>c \<in> set cols. n \<le> c)" using assms(4) by auto
  ultimately show ?thesis using assms(1,2) by (simp add: csr_matrix_def Let_def)
qed

lemma filter_eq_distinct:
  "distinct xs \<Longrightarrow> filter (\<lambda>i. i = j) xs = (if j \<in> set xs then [j] else [])"
  by (induction xs) auto

lemma getitem_canonical:
  assumes "distinct idx"
  shows "getitem \<lparr>shape1 = n, indices = idx, data = map g idx\<rparr> j =
         (if n \<le> j then Inl IndexError else Inr (if j \<in> set idx then g j else Fin 0))"
proof -
  have "zip idx (map g idx) = map (\<lambda>i. (i, g i)) idx"
    by (simp add: zip_map2 zip_same_conv_map)
  then have "filter (\<lambda>jd. fst jd = j) (zip idx (map g idx)) =
             map (\<lambda>i. (i, g i)) (filter (\<lambda>i. i = j) idx)"
    by (simp add: filter_map comp_def)
  then show ?thesis
    by (simp add: getitem_def filter_eq_distinct [OF assms])
qed

lemma filter_inj_distinct:
  assumes "distinct ts" "inj_on f (set ts)" "t \<in> set ts"
  shows "filter (\<lambda>u. f u = f t) ts = [t]"
proof -
  have "filter (\<lambda>u. f u = f t) ts = filter (\<lambda>u. u = t) ts"
    using assms(2,3) by (intro filter_cong) (auto dest: inj_onD)
  then show ?thesis using filter_eq_distinct [OF assms(1), of t] assms(3) by simp
qed

lemma column_sum_distinct:
  assumes "distinct ts" "inj_on f (set ts)" "t \<in> set ts"
  shows "fsum (map snd (filter (\<lambda>cd. fst cd = f t) (zip (map f ts) (map w ts)))) = w t"
proof -
  have "zip (map f ts) (map w ts) = map (\<lambda>u. (f u, w u)) ts"
    by (simp add: zip_map_map zip_same_conv_map)
  then have "filter (\<lambda>cd. fst cd = f t) (zip (map f ts) (map w ts)) =
             map (\<lambda>u. (f u, w u)) (filter (\<lambda>u. f u = f t) ts)"
    by (simp add: filter_map comp_def)
  then show ?thesis by (simp add: filter_inj_distinct [OF assms])
qed



lemma doc_freq_df_substring: "doc_freq ms t = df_substring ms t"
  unfolding doc_freq_def df_substring_def str_contains_def
  by (simp add: length_filter_conv_card)

lemma df_substring_le: "df_substring ms t \<le> length ms"
  unfolding doc_freq_df_substring [symmetric] doc_freq_def by simp

lemma vocab_lookup:
  assumes "t \<in> set (token_list ms)"
  shows "lookup (build_vocab ms) t = Inr (index_of (build_vocab ms) t)"
    and "index_of (build_vocab ms) t < length (build_vocab ms)"
    and "fst (build_vocab ms ! index_of (build_vocab ms) t) = t"
proof -
  let ?ks = "sorted_list_of_set (set (token_list ms))"
  have d: "distinct ?ks" by simp
  from assms have "t \<in> set ?ks" by simp
  then obtain j where j: "j < length ?ks" "?ks ! j = t" unfolding in_set_conv_nth by blast
  then have l: "lookup (build_vocab ms) t = Inr j"
    unfolding build_vocab_zip using lookup_zip_upt [OF d, of t j] by simp
  then have i: "index_of (build_vocab ms) t = j"
    by (auto simp: lookup_def index_of_def split: option.splits)
  show "lookup (build_vocab ms) t = Inr (index_of (build_vocab ms) t)" using l i by simp
  show "index_of (build_vocab ms) t < length (build_vocab ms)"
    using j i by (simp add: build_vocab_zip)
  show "fst (build_vocab ms ! index_of (build_vocab ms) t) = t"
    using j i by (simp add: build_vocab_zip)
qed

lemma index_of_inj: "inj_on (index_of (build_vocab ms)) (set (token_list ms))"
proof (rule inj_onI)
  fix t u
  assume t: "t \<in> set (token_list ms)" and u: "u \<in> set (token_list ms)"
    and eq: "index_of (build_vocab ms) t = index_of (build_vocab ms) u"
  have "t = fst (build_vocab ms ! index_of (build_vocab ms) t)"
    by (rule vocab_lookup(3) [OF t, symmetric])
  also have "\<dots> = fst (build_vocab ms ! index_of (build_vocab ms) u)"
    by (simp only: eq)
  also have "\<dots> = u" by (rule vocab_lookup(3) [OF u])
  finally show "t = u" .
qed

lemma map_of_keyed:
  "map_of (map (\<lambda>v. (fst v, f (fst v))) xs) t = (if t \<in> fst ` set xs then Some (f t) else None)"
  by (induction xs) auto

lemma dfdict_lookup:
  assumes "t \<in> set (token_list ms)"
  shows "lookup (build_dfdict ms (build_vocab ms)) t = Inr (df_substring ms t)"
proof -
  have "t \<in> set (map fst (build_vocab ms))" using assms by (simp add: build_vocab_keys)
  then have "t \<in> fst ` set (build_vocab ms)" by simp
  then show ?thesis
    by (simp add: build_dfdict_def lookup_def map_of_keyed doc_freq_df_substring)
qed



lemma feature_row_Inr:
  assumes ne: "row \<noteq> []" and sub: "set row \<subseteq> set (token_list ms)" and N: "0 < length ms"
  shows "feature_row (build_vocab ms) (build_dfdict ms (build_vocab ms)) (length ms) row =
         Inr (feature_vec ms row)"
proof -
  let ?V = "build_vocab ms"
  let ?D = "build_dfdict ms ?V"
  let ?ts = "distinct_first row"
  let ?idx = "index_of ?V"
  let ?w = "weight_of ms row"
  from most_common1_count [OF ne] obtain t0 where
    mc: "first (most_common1 row) = Inr (t0, max_tf row)" unfolding max_tf_def by blast
  from ne obtain u where "u \<in> set row" by (cases row) auto
  from max_count_positive [OF this] have mx: "0 < max_tf row" unfolding max_tf_def by simp
  have body: "\<forall>t \<in> set ?ts.
      ebind (tfidf (count_list row t) (max_tf row) (length ms) ?D t) (\<lambda>w.
      ebind (lookup ?V t) (\<lambda>c. Inr (w, 0::nat, c))) = Inr (?w t, 0, ?idx t)"
  proof
    fix t assume "t \<in> set ?ts"
    then have t: "t \<in> set (token_list ms)" using sub by auto
    have "tfidf (count_list row t) (max_tf row) (length ms) ?D t = Inr (?w t)"
      unfolding tfidf_value [OF mx N dfdict_lookup [OF t]] weight_of_def by simp
    then show "ebind (tfidf (count_list row t) (max_tf row) (length ms) ?D t) (\<lambda>w.
      ebind (lookup ?V t) (\<lambda>c. Inr (w, 0::nat, c))) = Inr (?w t, 0, ?idx t)"
      by (simp add: vocab_lookup(1) [OF t])
  qed
  have inj: "inj_on ?idx (set ?ts)"
    using index_of_inj [of ms] sub by (auto intro: inj_on_subset)
  have cols: "\<forall>c \<in> set (map ?idx ?ts). c < length ?V"
    using sub vocab_lookup(2) by auto
  have dat: "map (\<lambda>j. fsum (map snd (filter (\<lambda>cd. fst cd = j) (zip (map ?idx ?ts) (map ?w ?ts)))))
                (sorted_list_of_set (?idx ` set row)) =
             map (\<lambda>j. ?w (fst (?V ! j))) (sorted_list_of_set (?idx ` set row))"
  proof (rule map_cong [OF refl])
    fix j assume "j \<in> set (sorted_list_of_set (?idx ` set row))"
    then obtain t where t: "t \<in> set row" and j: "j = ?idx t" by auto
    from t sub have tt: "t \<in> set (token_list ms)" by auto
    from t have ts: "t \<in> set ?ts" by simp
    show "fsum (map snd (filter (\<lambda>cd. fst cd = j) (zip (map ?idx ?ts) (map ?w ?ts)))) =
          ?w (fst (?V ! j))"
      unfolding j column_sum_distinct [OF distinct_distinct_first inj ts]
      by (simp only: vocab_lookup(3) [OF tt])
  qed
  have "feature_row ?V ?D (length ms) row =
        csr_matrix (map ?w ?ts) (map (\<lambda>_. 0) ?ts) (map ?idx ?ts) (length ?V)"
    unfolding feature_row_def mc
    by (simp add: mapM_Inr_map [OF body] comp_def)
  also have "\<dots> = Inr \<lparr>shape1 = length ?V, indices = sorted_list_of_set (set (map ?idx ?ts)),
      data = map (\<lambda>j. fsum (map snd (filter (\<lambda>cd. fst cd = j) (zip (map ?idx ?ts) (map ?w ?ts)))))
               (sorted_list_of_set (set (map ?idx ?ts)))\<rparr>"
    by (rule csr_matrix_Inr) (use cols in simp_all)
  also have "\<dots> = Inr (feature_vec ms row)"
    unfolding feature_vec_def using dat by simp
  finally show ?thesis .
qed

lemma feature_row_empty: "feature_row vocab dfdict N [] = Inl IndexError"
  by (simp add: feature_row_def most_common1_empty)

lemma tokens_subset: "m \<in> set ms \<Longrightarrow> set (tokens m) \<subseteq> set (token_list ms)"
  by (auto simp: token_list_def)

lemma featurize_closed:
  "featurize ms =
     (if \<exists>m \<in> set ms. tokens m = [] then Inl IndexError
      else Inr (map (\<lambda>m. \<lparr>movie.movieId = movie.movieId m, genres = genres m,
                            tokens = tokens m, features = feature_vec ms (tokens m)\<rparr>) ms,
                build_vocab ms))"
proof (cases "\<exists>m \<in> set ms. tokens m = []")
  case False
  have "\<forall>m \<in> set ms. feature_row (build_vocab ms) (build_dfdict ms (build_vocab ms))
          (length ms) (tokens m) = Inr (feature_vec ms (tokens m))"
  proof
    fix m assume m: "m \<in> set ms"
    then have "0 < length ms" by (cases ms) auto
    with False m tokens_subset [OF m] show "feature_row (build_vocab ms)
        (build_dfdict ms (build_vocab ms)) (length ms) (tokens m) = Inr (feature_vec ms (tokens m))"
      by (intro feature_row_Inr) auto
  qed
  from mapM_Inr_map [OF this] False show ?thesis
    by (simp add: featurize_def Let_def zip_map2 zip_same_conv_map comp_def)
next
  case True
  let ?f = "\<lambda>m. feature_row (build_vocab ms) (build_dfdict ms (build_vocab ms))
          (length ms) (tokens m)"
  have each: "?f m = Inl IndexError \<or> (\<exists>v. ?f m = Inr v)" if "m \<in> set ms" for m
  proof (cases "tokens m = []")
    case True
    then show ?thesis by (simp add: feature_row_empty)
  next
    case False
    from that have "0 < length ms" by (cases ms) auto
    with False feature_row_Inr [OF False tokens_subset [OF that]] show ?thesis by simp
  qed
  have "mapM ?f ms = Inl IndexError"
  proof (cases "mapM ?f ms")
    case (Inl e)
    from mapM_Inl [OF Inl] obtain x where x: "x \<in> set ms" "?f x = Inl e" by blast
    from each [OF x(1)] x(2) have "e = IndexError" by auto
    with Inl show ?thesis by simp
  next
    case (Inr vs)
    from True obtain m where m: "m \<in> set ms" "tokens m = []" by blast
    then obtain i where "i < length ms" "ms ! i = m" by (auto simp: in_set_conv_nth)
    with Inr have "?f m = Inr (vs ! i)" unfolding mapM_Inr_iff by auto
    with m show ?thesis by (simp add: feature_row_empty)
  qed
  with True show ?thesis by (simp add: featurize_def Let_def)
qed



lemma getitem_feature_vec:
  "getitem (feature_vec ms row) j =
     (if length (build_vocab ms) \<le> j then Inl IndexError
      else Inr (if j \<in> index_of (build_vocab ms) ` set row
                then weight_of ms row (fst (build_vocab ms ! j)) else Fin 0))"
  unfolding feature_vec_def
  by (subst getitem_canonical) simp_all

lemma findall_class_sublist: "t \<in> set (findall_class P s) \<Longrightarrow> sublist t s"
proof (induction P s rule: findall_class.induct)
  case (1 P)
  then show ?case by simp
next
  case (2 P c cs)
  show ?case
  proof (cases "P c")
    case True
    with "2.prems" consider "t = c # takeWhile P cs" | "t \<in> set (findall_class P (dropWhile P cs))"
      by auto
    then show ?thesis
    proof cases
      case 1
      have "prefix (c # takeWhile P cs) (c # cs)" by (simp add: takeWhile_is_prefix)
      with 1 show ?thesis by (simp add: prefix_imp_sublist)
    next
      case 2
      with "2.IH"(1) [OF True] have "sublist t (dropWhile P cs)" by simp
      moreover have "sublist (dropWhile P cs) (c # cs)"
        by (rule suffix_imp_sublist) (simp add: suffix_dropWhile suffix_ConsI)
      ultimately show ?thesis by (rule sublist_order.order_trans)
    qed
  next
    case False
    with "2.prems" "2.IH"(2) have "sublist t cs" by simp
    then show ?thesis by (simp add: sublist_Cons_right)
  qed
qed

lemma tokenize_string_sublist: "t \<in> set (tokenize_string s) \<Longrightarrow> sublist t (lower s)"
  unfolding tokenize_string_def by (rule findall_class_sublist)

lemma tokenize_nth:
  "i < length raw \<Longrightarrow> tokens (tokenize raw ! i) = tokenize_string (genres (raw ! i)) \<and>
     genres (tokenize raw ! i) = genres (raw ! i) \<and>
     movie.movieId (tokenize raw ! i) = movie.movieId (raw ! i)"
  by (simp add: tokenize_def)

lemma length_tokenize [simp]: "length (tokenize raw) = length raw"
  by (simp add: tokenize_def)

lemma df_substring_tokenize: "df_substring (tokenize raw) t = df_substring raw t"
proof -
  have "{k. k < length (tokenize raw) \<and> sublist t (lower (genres (tokenize raw ! k)))} =
        {k. k < length raw \<and> sublist t (lower (genres (raw ! k)))}"
    using tokenize_nth [of _ raw] by auto
  then show ?thesis unfolding df_substring_def by simp
qed

lemma token_list_tokenize:
  "t \<in> set (token_list (tokenize raw)) \<longleftrightarrow>
   (\<exists>k < length raw. t \<in> set (tokenize_string (genres (raw ! k))))"
proof -
  have "t \<in> set (token_list (tokenize raw)) \<longleftrightarrow>
        (\<exists>m \<in> set raw. t \<in> set (tokenize_string (genres m)))"
    by (auto simp: token_list_def tokenize_def)
  also have "\<dots> \<longleftrightarrow> (\<exists>k < length raw. t \<in> set (tokenize_string (genres (raw ! k))))"
    unfolding Bex_def in_set_conv_nth [of _ raw] by blast
  finally show ?thesis .
qed

lemma df_substring_positive:
  assumes "t \<in> set (token_list (tokenize raw))"
  shows "1 \<le> df_substring raw t"
proof -
  from assms obtain k where k: "k < length raw" "t \<in> set (tokenize_string (genres (raw ! k)))"
    unfolding token_list_tokenize by blast
  let ?S = "{k. k < length raw \<and> sublist t (lower (genres (raw ! k)))}"
  have "k \<in> ?S" using k tokenize_string_sublist by simp
  moreover have "finite ?S" by simp
  ultimately have "0 < card ?S" using card_gt_0_iff by blast
  then show ?thesis unfolding df_substring_def by simp
qed

lemma weight_of_tokenize:
  assumes "t \<in> set (token_list (tokenize raw))"
  shows "weight_of (tokenize raw) row t =
         Fin (real (count_list row t) / real (max_tf row) *
              log 10 (real (length raw) / real (df_substring raw t)))"
  using df_substring_positive [OF assms]
  by (simp add: weight_of_def df_substring_tokenize)

subsection \<open>Vocabulary builder\<close>

text \<open>
  Claim C4. The vocabulary that \<open>featurize\<close> returns holds exactly the distinct tokens of
  all movies' token sequences, in alphabetically sorted order, numbered 0 to k - 1 in that
  order. For the movies with the token lists \<open>["horror", "romance"]\<close> and \<open>["sci-fi"]\<close> it
  is \<open>{"horror": 0, "romance": 1, "sci-fi": 2}\<close>.
\<close>

theorem featurize_vocabulary:
  "(\<forall>ms fms vocab. featurize ms = Inr (fms, vocab) \<longrightarrow>
      set (map fst vocab) = (\<Union>m \<in> set ms. set (tokens m)) \<and>
      sorted (map fst vocab) \<and> distinct (map fst vocab) \<and>
      map snd vocab = [0..<length vocab]) \<and>
   (\<exists>fms. featurize
      [\<lparr>movie.movieId = 123, genres = ''Horror|Romance'', tokens = [''horror'', ''romance'']\<rparr>,
       \<lparr>movie.movieId = 456, genres = ''Sci-Fi'', tokens = [''sci-fi'']\<rparr>] =
      Inr (fms, [(''horror'', 0), (''romance'', 1), (''sci-fi'', 2)]))"
proof -
  have a: "set (map fst vocab) = (\<Union>m \<in> set ms. set (tokens m)) \<and>
      sorted (map fst vocab) \<and> distinct (map fst vocab) \<and>
      map snd vocab = [0..<length vocab]"
    if "featurize ms = Inr (fms, vocab)" for ms fms vocab
  proof -
    from that have v: "vocab = build_vocab ms" by (rule featurize_vocab)
    show ?thesis
      unfolding v build_vocab_keys
      using build_vocab_values [of ms] by (simp add: set_token_list)
  qed
  let ?ex = "[\<lparr>movie.movieId = 123, genres = ''Horror|Romance'', tokens = [''horror'', ''romance'']\<rparr>,
       \<lparr>movie.movieId = 456, genres = ''Sci-Fi'', tokens = [''sci-fi'']\<rparr>]"
  have v: "build_vocab ?ex = [(''horror'', 0), (''romance'', 1), (''sci-fi'', 2)]"
    by code_simp
  have "\<not> (\<exists>m \<in> set ?ex. tokens m = [])" by simp
  then have b: "\<exists>fms. featurize ?ex = Inr (fms, [(''horror'', 0), (''romance'', 1), (''sci-fi'', 2)])"
    unfolding featurize_closed [of ?ex] v by simp
  from a b show ?thesis by blast
qed

theorem featurize_vocabulary_witness:
  "\<exists>fms vocab. featurize (tokenize [\<lparr>movie.movieId = 123, genres = ''Horror|Romance''\<rparr>,
       \<lparr>movie.movieId = 456, genres = ''Sci-Fi''\<rparr>]) = Inr (fms, vocab) \<and>
     map fst vocab = [''horror'', ''romance'', ''sci-fi''] \<and> sorted (map fst vocab) \<and>
     map snd vocab = [0, 1, 2]"
proof -
  have t: "tokenize [\<lparr>movie.movieId = 123, genres = ''Horror|Romance''\<rparr>,
       \<lparr>movie.movieId = 456, genres = ''Sci-Fi''\<rparr>] =
     [\<lparr>movie.movieId = 123, genres = ''Horror|Romance'', tokens = [''horror'', ''romance'']\<rparr>,
       \<lparr>movie.movieId = 456, genres = ''Sci-Fi'', tokens = [''sci-fi'']\<rparr>]"
    by code_simp
  from featurize_vocabulary obtain fms where
    f: "featurize [\<lparr>movie.movieId = 123, genres = ''Horror|Romance'', tokens = [''horror'', ''romance'']\<rparr>,
       \<lparr>movie.movieId = 456, genres = ''Sci-Fi'', tokens = [''sci-fi'']\<rparr>] =
      Inr (fms, [(''horror'', 0), (''romance'', 1), (''sci-fi'', 2)])" by blast
  with featurize_vocabulary have "sorted (map fst [(''horror'', 0::nat), (''romance'', 1), (''sci-fi'', 2)])"
    by blast
  with f show ?thesis unfolding t by (intro exI [of _ fms] exI [of _ "[(''horror'', 0), (''romance'', 1), (''sci-fi'', 2)]"]) simp
qed

subsection \<open>Feature builder: document frequencies\<close>

lemma featurize_tokenize_Inr:
  assumes "featurize (tokenize raw) = Inr (fms, vocab)" and "i < length raw"
  shows "vocab = build_vocab (tokenize raw)"
    and "features (fms ! i) = feature_vec (tokenize raw) (tokenize_string (genres (raw ! i)))"
    and "tokenize_string (genres (raw ! i)) \<noteq> []"
    and "length fms = length raw"
proof -
  let ?ms = "tokenize raw"
  from assms(1) have ne: "\<not> (\<exists>m \<in> set ?ms. tokens m = [])"
    and fms: "fms = map (\<lambda>m. \<lparr>movie.movieId = movie.movieId m, genres = genres m,
                            tokens = tokens m, features = feature_vec ?ms (tokens m)\<rparr>) ?ms"
    and v: "vocab = build_vocab ?ms"
    unfolding featurize_closed [of ?ms] by (auto split: if_splits)
  show "vocab = build_vocab ?ms" by (rule v)
  show "features (fms ! i) = feature_vec ?ms (tokenize_string (genres (raw ! i)))"
    using assms(2) tokenize_nth [OF assms(2)] unfolding fms by simp
  have "?ms ! i \<in> set ?ms" using assms(2) by simp
  with ne have "tokens (?ms ! i) \<noteq> []" by blast
  then show "tokenize_string (genres (raw ! i)) \<noteq> []"
    using tokenize_nth [OF assms(2)] by simp
  show "length fms = length raw" unfolding fms by simp
qed

lemma row_token_in_list:
  "i < length raw \<Longrightarrow> t \<in> set (tokenize_string (genres (raw ! i))) \<Longrightarrow>
   t \<in> set (token_list (tokenize raw))"
  unfolding token_list_tokenize by blast

text \<open>
  Claim C8. For every term of the vocabulary that \<open>featurize\<close> builds from the tokenized
  catalogue, the document frequency computed in lines 94 to 96 is at least 1, so the
  tf-idf computation of line 106 gets a non-zero divisor and returns a finite weight;
  \<open>featurize\<close> raises neither \<open>ZeroDivisionError\<close> nor \<open>ValueError\<close>.
\<close>

theorem doc_freq_positive:
  assumes "t \<in> fst ` set (build_vocab (tokenize raw))"
  shows "1 \<le> doc_freq (tokenize raw) t \<and>
         lookup (build_dfdict (tokenize raw) (build_vocab (tokenize raw))) t =
           Inr (doc_freq (tokenize raw) t) \<and>
         (\<forall>tf mx. 0 < mx \<longrightarrow>
            tfidf tf mx (length (tokenize raw))
              (build_dfdict (tokenize raw) (build_vocab (tokenize raw))) t =
            Inr (Fin (real tf / real mx *
                 log 10 (real (length raw) / real (doc_freq (tokenize raw) t))))) \<and>
         featurize (tokenize raw) \<noteq> Inl ZeroDivisionError \<and>
         featurize (tokenize raw) \<noteq> Inl ValueError"
proof -
  let ?ms = "tokenize raw"
  from assms have "t \<in> set (map fst (build_vocab ?ms))" by simp
  then have t: "t \<in> set (token_list ?ms)" unfolding build_vocab_keys by simp
  have df: "doc_freq ?ms t = df_substring raw t"
    by (simp add: doc_freq_df_substring df_substring_tokenize)
  have pos: "1 \<le> df_substring raw t" by (rule df_substring_positive [OF t])
  have lk: "lookup (build_dfdict ?ms (build_vocab ?ms)) t = Inr (df_substring raw t)"
    using dfdict_lookup [OF t] by (simp add: df_substring_tokenize)
  from t obtain k where "k < length raw" unfolding token_list_tokenize by blast
  then have N: "0 < length ?ms" by (cases raw) simp_all
  have w: "tfidf tf mx (length ?ms) (build_dfdict ?ms (build_vocab ?ms)) t =
      Inr (Fin (real tf / real mx * log 10 (real (length raw) / real (df_substring raw t))))"
    if "0 < mx" for tf mx
    using tfidf_value [OF that N lk, of tf] pos by simp
  have "featurize ?ms \<noteq> Inl ZeroDivisionError" "featurize ?ms \<noteq> Inl ValueError"
    unfolding featurize_closed [of ?ms] by simp_all
  with pos lk w show ?thesis unfolding df by blast
qed

theorem doc_freq_positive_witness:
  "1 \<le> doc_freq (tokenize [\<lparr>movie.movieId = 123, genres = ''Horror|Romance''\<rparr>,
       \<lparr>movie.movieId = 456, genres = ''Sci-Fi''\<rparr>]) ''sci-fi'' \<and>
   tfidf 1 1 (length (tokenize [\<lparr>movie.movieId = 123, genres = ''Horror|Romance''\<rparr>,
       \<lparr>movie.movieId = 456, genres = ''Sci-Fi''\<rparr>]))
     (build_dfdict (tokenize [\<lparr>movie.movieId = 123, genres = ''Horror|Romance''\<rparr>,
       \<lparr>movie.movieId = 456, genres = ''Sci-Fi''\<rparr>])
       (build_vocab (tokenize [\<lparr>movie.movieId = 123, genres = ''Horror|Romance''\<rparr>,
       \<lparr>movie.movieId = 456, genres = ''Sci-Fi''\<rparr>]))) ''sci-fi'' = Inr (Fin (log 10 2))"
proof -
  let ?raw = "[\<lparr>movie.movieId = 123, genres = ''Horror|Romance''\<rparr>,
       \<lparr>movie.movieId = 456, genres = ''Sci-Fi''\<rparr>]"
  let ?D = "build_dfdict (tokenize ?raw) (build_vocab (tokenize ?raw))"
  have h: "''sci-fi'' \<in> fst ` set (build_vocab (tokenize ?raw))" by code_simp
  have d: "doc_freq (tokenize ?raw) ''sci-fi'' = 1" by code_simp
  note th = doc_freq_positive [OF h]
  have a: "1 \<le> doc_freq (tokenize ?raw) ''sci-fi''" by (rule th [THEN conjunct1])
  have p: "0 < (1::nat)" by simp
  note b = th [THEN conjunct2, THEN conjunct2, THEN conjunct1, rule_format, OF p, of 1]
  have "tfidf 1 1 (length (tokenize ?raw)) ?D ''sci-fi'' = Inr (Fin (log 10 2))"
    unfolding b d by simp
  with a show ?thesis by (rule conjI)
qed

subsection \<open>Feature builder: weights and support\<close>

text \<open>
  A catalogue of one movie: its only term occurs in every movie, so its weight is
  \<open>log10(1/1) = 0\<close>. The term has the vocabulary index 0, and the feature vector is zero
  at the index 0.
\<close>

theorem featurize_single_movie: "featurize (tokenize [\<lparr>movie.movieId = 1, genres = ''Horror''\<rparr>]) =
     Inr ([\<lparr>movie.movieId = 1, genres = ''Horror'', tokens = [''horror''],
            features = \<lparr>shape1 = 1, indices = [0], data = [Fin 0]\<rparr>\<rparr>], [(''horror'', 0)]) \<and>
   lookup [(''horror'', 0::nat)] ''horror'' = Inr 0 \<and>
   getitem \<lparr>shape1 = 1, indices = [0], data = [Fin 0]\<rparr> 0 = Inr (Fin 0)"
proof -
  let ?raw = "[\<lparr>movie.movieId = 1, genres = ''Horror''\<rparr>]"
  have t: "tokenize ?raw = [\<lparr>movie.movieId = 1, genres = ''Horror'', tokens = [''horror'']\<rparr>]"
    by code_simp
  have v: "build_vocab [\<lparr>movie.movieId = 1, genres = ''Horror'', tokens = [''horror'']\<rparr>] =
      [(''horror'', 0)]" by code_simp
  have d: "build_dfdict [\<lparr>movie.movieId = 1, genres = ''Horror'', tokens = [''horror'']\<rparr>]
      [(''horror'', 0)] = [(''horror'', 1)]" by code_simp
  have m: "most_common1 [''horror''] = [(''horror'', 1)]" by code_simp
  have f: "distinct_first [''horror''] = [''horror'']" by code_simp
  have c: "count_list [''horror''] ''horror'' = 1" by code_simp
  have l1: "lookup [(''horror'', 1::nat)] ''horror'' = Inr 1" by (simp add: lookup_def)
  have l0: "lookup [(''horror'', 0::nat)] ''horror'' = Inr 0" by (simp add: lookup_def)
  have w: "tfidf 1 1 1 [(''horror'', 1)] ''horror'' = Inr (Fin 0)"
    using l1 by (simp add: tfidf_def py_div_def)
  have r: "feature_row [(''horror'', 0)] [(''horror'', 1)] 1 [''horror''] =
      Inr \<lparr>shape1 = 1, indices = [0], data = [Fin 0]\<rparr>"
    using w l0 by (simp add: feature_row_def m first_def f c csr_matrix_def)
  have "featurize (tokenize ?raw) =
     Inr ([\<lparr>movie.movieId = 1, genres = ''Horror'', tokens = [''horror''],
            features = \<lparr>shape1 = 1, indices = [0], data = [Fin 0]\<rparr>\<rparr>], [(''horror'', 0)])"
    unfolding t featurize_def Let_def v d using r by simp
  moreover have "getitem \<lparr>shape1 = 1, indices = [0], data = [Fin 0]\<rparr> 0 = Inr (Fin 0)"
    by (simp add: getitem_def)
  ultimately show ?thesis using l0 by simp
qed


lemma log10_zero_iff: "0 < x \<Longrightarrow> log 10 x = 0 \<longleftrightarrow> x = 1"
proof
  assume x: "0 < x" and l: "log 10 x = 0"
  have "1 \<le> x" using zero_le_log_cancel_iff [of 10 x] x l by simp
  moreover have "x \<le> 1" using log_le_zero_cancel_iff [of 10 x] x l by simp
  ultimately show "x = 1" by simp
qed simp

lemma weight_zero_iff:
  assumes "0 < tf" "0 < mx" "1 \<le> df" "df \<le> N"
  shows "real tf / real mx * log 10 (real N / real df) = 0 \<longleftrightarrow> df = N"
proof -
  from assms have "0 < real N / real df" by simp
  then have "log 10 (real N / real df) = 0 \<longleftrightarrow> real N / real df = 1" by (rule log10_zero_iff)
  also have "\<dots> \<longleftrightarrow> df = N" using assms by (auto simp: field_simps)
  finally show ?thesis using assms by simp
qed

lemma feature_vec_tokenize:
  assumes "i < length raw"
  defines "row \<equiv> tokenize_string (genres (raw ! i))"
  defines "V \<equiv> build_vocab (tokenize raw)"
  shows "set (indices (feature_vec (tokenize raw) row)) = index_of V ` set row"
    and "index_of V ` set row = {j. \<exists>t \<in> set row. lookup V t = Inr j}"
    and "t \<in> set row \<Longrightarrow> lookup V t = Inr (index_of V t) \<and> index_of V t < length V \<and>
         getitem (feature_vec (tokenize raw) row) (index_of V t) =
           Inr (Fin (real (count_list row t) / real (max_tf row) *
                log 10 (real (length raw) / real (df_substring raw t))))"
proof -
  have tl: "u \<in> set (token_list (tokenize raw))" if "u \<in> set row" for u
    using that row_token_in_list [OF assms(1)] unfolding row_def by simp
  show "set (indices (feature_vec (tokenize raw) row)) = index_of V ` set row"
    unfolding feature_vec_def V_def by simp
  show "index_of V ` set row = {j. \<exists>t \<in> set row. lookup V t = Inr j}"
    using vocab_lookup(1) [OF tl] unfolding V_def by force
  assume t: "t \<in> set row"
  note l = vocab_lookup [OF tl [OF t], folded V_def]
  have "getitem (feature_vec (tokenize raw) row) (index_of V t) =
        Inr (weight_of (tokenize raw) row (fst (V ! index_of V t)))"
    unfolding getitem_feature_vec V_def [symmetric] using l(2) t by simp
  then show "lookup V t = Inr (index_of V t) \<and> index_of V t < length V \<and>
         getitem (feature_vec (tokenize raw) row) (index_of V t) =
           Inr (Fin (real (count_list row t) / real (max_tf row) *
                log 10 (real (length raw) / real (df_substring raw t))))"
    using l weight_of_tokenize [OF tl [OF t]] by simp
qed

text \<open>
  Claim C2. For every movie \<open>d\<close> of the tokenized catalogue and every token \<open>t\<close> of \<open>d\<close>, the
  feature vector that \<open>featurize\<close> gives \<open>d\<close> holds, at the vocabulary index of \<open>t\<close>, the
  weight \<open>(tf(t, d) / max_tf(d)) * log10(N / df(t))\<close>: \<open>tf\<close> counts \<open>t\<close> in the token
  sequence of \<open>d\<close>, \<open>max_tf\<close> is the greatest such count of a term of \<open>d\<close>, \<open>N\<close> is the number
  of movies and \<open>df(t)\<close> the number of movies whose lowercased genre text contains \<open>t\<close> as
  a substring.
\<close>

theorem featurize_tfidf:
  assumes "featurize (tokenize raw) = Inr (fms, vocab)" and "i < length raw"
    and "t \<in> set (tokenize_string (genres (raw ! i)))"
  shows "tokens (fms ! i) = tokenize_string (genres (raw ! i)) \<and>
         (\<exists>j. lookup vocab t = Inr j \<and> j < shape1 (features (fms ! i)) \<and>
            getitem (features (fms ! i)) j =
              Inr (Fin (real (count_list (tokens (fms ! i)) t) / real (max_tf (tokens (fms ! i))) *
                        log 10 (real (length raw) / real (df_substring raw t)))))"
proof -
  note f = featurize_tokenize_Inr [OF assms(1,2)]
  have tk: "tokens (fms ! i) = tokenize_string (genres (raw ! i))"
    using assms(1,2) tokenize_nth [OF assms(2)]
    unfolding featurize_closed [of "tokenize raw"] by (auto split: if_splits)
  let ?j = "index_of (build_vocab (tokenize raw)) t"
  have sh: "shape1 (feature_vec (tokenize raw) row) = length (build_vocab (tokenize raw))" for row
    by (simp add: feature_vec_def)
  note w = feature_vec_tokenize(3) [OF assms(2,3)]
  show ?thesis
    unfolding tk f(2) f(1) sh
    by (intro conjI exI [of _ ?j] refl w [THEN conjunct1] w [THEN conjunct2, THEN conjunct1]
        w [THEN conjunct2, THEN conjunct2])
qed


lemma featurize_two_movies:
  "\<exists>fms. featurize (tokenize [\<lparr>movie.movieId = 1, genres = ''Horror|Romance''\<rparr>,
       \<lparr>movie.movieId = 2, genres = ''Horror''\<rparr>]) =
     Inr (fms, [(''horror'', 0), (''romance'', 1)])"
proof -
  let ?raw = "[\<lparr>movie.movieId = 1, genres = ''Horror|Romance''\<rparr>,
       \<lparr>movie.movieId = 2, genres = ''Horror''\<rparr>]"
  have t: "tokenize ?raw =
      [\<lparr>movie.movieId = 1, genres = ''Horror|Romance'', tokens = [''horror'', ''romance'']\<rparr>,
       \<lparr>movie.movieId = 2, genres = ''Horror'', tokens = [''horror'']\<rparr>]"
    by code_simp
  have v: "build_vocab (tokenize ?raw) = [(''horror'', 0), (''romance'', 1)]" by code_simp
  have "\<not> (\<exists>m \<in> set (tokenize ?raw). tokens m = [])" unfolding t by simp
  then show ?thesis unfolding featurize_closed [of "tokenize ?raw"] v by simp
qed

theorem featurize_tfidf_witness:
  "\<exists>fms vocab. featurize (tokenize [\<lparr>movie.movieId = 1, genres = ''Horror|Romance''\<rparr>,
       \<lparr>movie.movieId = 2, genres = ''Horror''\<rparr>]) = Inr (fms, vocab) \<and>
     lookup vocab ''romance'' = Inr 1 \<and>
     getitem (features (fms ! 0)) 1 = Inr (Fin (log 10 2))"
proof -
  let ?raw = "[\<lparr>movie.movieId = 1, genres = ''Horror|Romance''\<rparr>,
       \<lparr>movie.movieId = 2, genres = ''Horror''\<rparr>]"
  let ?V = "[(''horror'', 0::nat), (''romance'', 1)]"
  from featurize_two_movies obtain fms where f: "featurize (tokenize ?raw) = Inr (fms, ?V)"
    by blast
  have i: "0 < length ?raw" by simp
  have ts: "tokenize_string (genres (?raw ! 0)) = [''horror'', ''romance'']" by code_simp
  then have t: "''romance'' \<in> set (tokenize_string (genres (?raw ! 0)))" by simp
  have l: "lookup ?V ''romance'' = Inr j \<longleftrightarrow> j = 1" for j
    by (auto simp: lookup_def)
  have c: "count_list [''horror'', ''romance''] ''romance'' = 1" by code_simp
  have m: "max_tf [''horror'', ''romance''] = 1" by code_simp
  have "df_substring ?raw ''romance'' = doc_freq ?raw ''romance''"
    by (rule doc_freq_df_substring [symmetric])
  also have "\<dots> = 1" by code_simp
  finally have d: "df_substring ?raw ''romance'' = 1" .
  from featurize_tfidf [OF f i t]
  have "getitem (features (fms ! 0)) 1 = Inr (Fin (log 10 2))"
    unfolding l ts by (simp add: c m d)
  with f l show ?thesis by blast
qed


text \<open>
  Claim C3, amended. For every movie of the tokenized catalogue, the indices stored in
  the feature vector that \<open>featurize\<close> produces are exactly the vocabulary indices of the
  movie's distinct tokens, and every other dimension is zero. The non-zero indices are
  exactly the vocabulary indices of those of the movie's tokens that do not occur in
  every movie's lowercased genre text: the weight of a term that occurs in all \<open>N\<close>
  movies is \<open>log10(N/N) = 0\<close>.
\<close>

theorem feature_vector_support:
  assumes "featurize (tokenize raw) = Inr (fms, vocab)" and "i < length raw"
  shows "shape1 (features (fms ! i)) = length vocab \<and>
         set (indices (features (fms ! i))) =
           {j. \<exists>t \<in> set (tokens (fms ! i)). lookup vocab t = Inr j} \<and>
         (\<forall>j < length vocab. j \<notin> set (indices (features (fms ! i))) \<longrightarrow>
            getitem (features (fms ! i)) j = Inr (Fin 0)) \<and>
         {j. j < length vocab \<and> getitem (features (fms ! i)) j \<noteq> Inr (Fin 0)} =
           {j. \<exists>t \<in> set (tokens (fms ! i)). lookup vocab t = Inr j \<and>
                 df_substring raw t < length raw}"
proof -
  let ?ms = "tokenize raw"
  let ?row = "tokenize_string (genres (raw ! i))"
  let ?V = "build_vocab ?ms"
  let ?f = "feature_vec ?ms ?row"
  note f = featurize_tokenize_Inr [OF assms]
  have tk: "tokens (fms ! i) = ?row"
    using assms tokenize_nth [OF assms(2)]
    unfolding featurize_closed [of ?ms] by (auto split: if_splits)
  note fv = feature_vec_tokenize [OF assms(2)]
  have a: "shape1 ?f = length ?V" by (simp add: feature_vec_def)
  have b: "set (indices ?f) = {j. \<exists>t \<in> set ?row. lookup ?V t = Inr j}"
    using fv(1) fv(2) by simp
  have c: "\<forall>j < length ?V. j \<notin> set (indices ?f) \<longrightarrow> getitem ?f j = Inr (Fin 0)"
    unfolding fv(1) by (simp add: getitem_feature_vec)
  have nz: "getitem ?f (index_of ?V t) \<noteq> Inr (Fin 0) \<longleftrightarrow> df_substring raw t < length raw"
    if t: "t \<in> set ?row" for t
  proof -
    have tl: "t \<in> set (token_list ?ms)" by (rule row_token_in_list [OF assms(2) t])
    note cnt = max_count_positive [OF t]
    have mx: "0 < max_tf ?row" unfolding max_tf_def using cnt by simp
    have z: "real (count_list ?row t) / real (max_tf ?row) *
             log 10 (real (length raw) / real (df_substring raw t)) = 0 \<longleftrightarrow>
             df_substring raw t = length raw"
      by (rule weight_zero_iff [OF cnt(1) mx df_substring_positive [OF tl] df_substring_le])
    have "getitem ?f (index_of ?V t) \<noteq> Inr (Fin 0) \<longleftrightarrow> df_substring raw t \<noteq> length raw"
      unfolding fv(3) [OF t, THEN conjunct2, THEN conjunct2] using z by simp
    then show ?thesis using df_substring_le [of raw t] by auto
  qed
  have d: "{j. j < length ?V \<and> getitem ?f j \<noteq> Inr (Fin 0)} =
           {j. \<exists>t \<in> set ?row. lookup ?V t = Inr j \<and> df_substring raw t < length raw}"
  proof (rule set_eqI, rule iffI)
    fix j
    assume "j \<in> {j. j < length ?V \<and> getitem ?f j \<noteq> Inr (Fin 0)}"
    then have j: "j < length ?V" and g: "getitem ?f j \<noteq> Inr (Fin 0)" by simp_all
    from j g have "j \<in> index_of ?V ` set ?row"
      unfolding getitem_feature_vec by (auto split: if_splits)
    then obtain t where t: "t \<in> set ?row" and jt: "j = index_of ?V t" by blast
    from nz [OF t] g jt have "df_substring raw t < length raw" by simp
    moreover have "lookup ?V t = Inr j"
      using fv(3) [OF t] jt by simp
    ultimately show "j \<in> {j. \<exists>t \<in> set ?row. lookup ?V t = Inr j \<and> df_substring raw t < length raw}"
      using t by blast
  next
    fix j
    assume "j \<in> {j. \<exists>t \<in> set ?row. lookup ?V t = Inr j \<and> df_substring raw t < length raw}"
    then obtain t where t: "t \<in> set ?row" and l: "lookup ?V t = Inr j"
      and df: "df_substring raw t < length raw" by blast
    from fv(3) [OF t] l have jt: "j = index_of ?V t" and jl: "j < length ?V" by simp_all
    from nz [OF t] df jt have "getitem ?f j \<noteq> Inr (Fin 0)" by simp
    with jl show "j \<in> {j. j < length ?V \<and> getitem ?f j \<noteq> Inr (Fin 0)}" by simp
  qed
  show ?thesis
    unfolding tk f(2) f(1) by (intro conjI a b c d)
qed

theorem feature_vector_support_witness:
  "\<exists>fms vocab. featurize (tokenize [\<lparr>movie.movieId = 1, genres = ''Horror|Romance''\<rparr>,
       \<lparr>movie.movieId = 2, genres = ''Horror''\<rparr>]) = Inr (fms, vocab) \<and>
     set (indices (features (fms ! 0))) = {0, 1} \<and>
     {j. j < length vocab \<and> getitem (features (fms ! 0)) j \<noteq> Inr (Fin 0)} = {1}"
proof -
  let ?raw = "[\<lparr>movie.movieId = 1, genres = ''Horror|Romance''\<rparr>,
       \<lparr>movie.movieId = 2, genres = ''Horror''\<rparr>]"
  let ?V = "[(''horror'', 0::nat), (''romance'', 1)]"
  from featurize_two_movies obtain fms where f: "featurize (tokenize ?raw) = Inr (fms, ?V)"
    by blast
  have i: "0 < length ?raw" by simp
  have ts: "tokenize_string (genres (?raw ! 0)) = [''horror'', ''romance'']" by code_simp
  have l: "lookup ?V ''romance'' = Inr j \<longleftrightarrow> j = 1" "lookup ?V ''horror'' = Inr j \<longleftrightarrow> j = 0" for j
    by (auto simp: lookup_def)
  have "df_substring ?raw ''romance'' = doc_freq ?raw ''romance''"
    "df_substring ?raw ''horror'' = doc_freq ?raw ''horror''"
    by (rule doc_freq_df_substring [symmetric])+
  moreover have "doc_freq ?raw ''romance'' = 1" "doc_freq ?raw ''horror'' = 2" by code_simp+
  ultimately have d: "df_substring ?raw ''romance'' = 1" "df_substring ?raw ''horror'' = 2"
    by simp_all
  note th = feature_vector_support [OF f i]
  have tk: "tokens (fms ! 0) = [''horror'', ''romance'']"
    using featurize_tokenize_Inr(2) [OF f i] f i tokenize_nth [OF i]
    unfolding featurize_closed [of "tokenize ?raw"] ts by (auto split: if_splits)
  have "set (indices (features (fms ! 0))) = {0, 1}"
    unfolding th [THEN conjunct2, THEN conjunct1] tk using l by auto
  moreover have "{j. j < length ?V \<and> getitem (features (fms ! 0)) j \<noteq> Inr (Fin 0)} = {1}"
    unfolding th [THEN conjunct2, THEN conjunct2, THEN conjunct2] tk using l d by auto
  ultimately show ?thesis using f by blast
qed

subsection \<open>Prediction engine\<close>

lemma predict_row_value:
  assumes "mapM (pair_sim movies row) (filter (\<lambda>r. userId r = userId row) train) = Inr arr"
  shows "predict_row movies train row =
     (let users = filter (\<lambda>r. userId r = userId row) train;
          S = fsum (map (\<lambda>(a, b). fmul (Fin a) b) (zip (map rating users) arr))
      in if fgt S (Fin 0) then Inr (fdiv S (fsum arr))
         else if users = [] then Inl ZeroDivisionError
         else Inr (Fin (sum_list (map rating users) / real (length users))))"
  unfolding predict_row_def Let_def assms by simp

lemma pair_sim_cosine:
  assumes "features_of movies (rating_row.movieId r) = Inr ft"
    and "features_of movies (rating_row.movieId row) = Inr fe"
  shows "pair_sim movies row r = cosine_sim ft fe"
  using assms by (simp add: pair_sim_def)

lemma predict_row_sim:
  assumes sims: "\<forall>r \<in> set train. userId r = userId row \<longrightarrow> pair_sim movies row r = Inr (sim r)"
    and hist: "\<exists>r \<in> set train. userId r = userId row"
  shows "predict_row movies train row =
     Inr (let users = filter (\<lambda>r. userId r = userId row) train;
              S = fsum (map (\<lambda>r. fmul (Fin (rating r)) (sim r)) users);
              W = fsum (map sim users)
          in if fgt S (Fin 0) then fdiv S W
             else Fin (sum_list (map rating users) / real (length users)))"
proof -
  let ?users = "filter (\<lambda>r. userId r = userId row) train"
  have "\<forall>r \<in> set ?users. pair_sim movies row r = Inr (sim r)" using sims by simp
  then have m: "mapM (pair_sim movies row) ?users = Inr (map sim ?users)"
    by (rule mapM_Inr_map)
  have z: "map (\<lambda>(a, b). fmul (Fin a) b) (zip (map rating ?users) (map sim ?users)) =
           map (\<lambda>r. fmul (Fin (rating r)) (sim r)) ?users"
    by (simp add: zip_map_map zip_same_conv_map)
  have ne: "?users \<noteq> []" using hist by (auto simp: filter_empty_conv)
  show ?thesis
    unfolding predict_row_value [OF m] z Let_def using ne by simp
qed

text \<open>
  Claim C1. Let every test row's user have at least one training rating, and let the
  cosine similarity between each of the user's training movies and the target movie be
  computed (both movies are in the catalogue and the computation returns \<open>sim row r\<close>).
  Then \<open>make_predictions\<close> returns one prediction per test row, in the order of the test
  rows: with \<open>S\<close> the sum of similarity times rating over all of the user's training rows
  and \<open>W\<close> the sum of those similarities, the prediction is \<open>S / W\<close> when \<open>S > 0\<close> and the
  arithmetic mean of the user's training ratings otherwise. For finite similarities
  \<open>S\<close> and \<open>W\<close> are the sums of real numbers.
\<close>

theorem make_predictions_weighted_average:
  assumes sims: "\<forall>row \<in> set test. \<forall>r \<in> set train. userId r = userId row \<longrightarrow>
      (\<exists>ft fe. features_of movies (rating_row.movieId r) = Inr ft \<and>
               features_of movies (rating_row.movieId row) = Inr fe \<and>
               cosine_sim ft fe = Inr (sim row r))"
    and hist: "\<forall>row \<in> set test. \<exists>r \<in> set train. userId r = userId row"
  shows "\<exists>preds. make_predictions movies train test = Inr preds \<and>
           length preds = length test \<and>
           (\<forall>i < length test.
              preds ! i =
               (let users = filter (\<lambda>r. userId r = userId (test ! i)) train;
                    S = fsum (map (\<lambda>r. fmul (Fin (rating r)) (sim (test ! i) r)) users);
                    W = fsum (map (sim (test ! i)) users)
                in if fgt S (Fin 0) then fdiv S W
                   else Fin (sum_list (map rating users) / real (length users))) \<and>
              (\<forall>c. (\<forall>r \<in> set train. sim (test ! i) r = Fin (c r)) \<longrightarrow>
                 preds ! i =
                  (let users = filter (\<lambda>r. userId r = userId (test ! i)) train;
                       S = sum_list (map (\<lambda>r. c r * rating r) users);
                       W = sum_list (map c users)
                   in if 0 < S then fdiv (Fin S) (Fin W)
                      else Fin (sum_list (map rating users) / real (length users)))))"
proof -
  let ?g = "\<lambda>row. let users = filter (\<lambda>r. userId r = userId row) train;
                    S = fsum (map (\<lambda>r. fmul (Fin (rating r)) (sim row r)) users);
                    W = fsum (map (sim row) users)
                in if fgt S (Fin 0) then fdiv S W
                   else Fin (sum_list (map rating users) / real (length users))"
  have "\<forall>row \<in> set test. predict_row movies train row = Inr (?g row)"
  proof
    fix row assume row: "row \<in> set test"
    have "\<forall>r \<in> set train. userId r = userId row \<longrightarrow> pair_sim movies row r = Inr (sim row r)"
      using sims row pair_sim_cosine by metis
    moreover have "\<exists>r \<in> set train. userId r = userId row" using hist row by blast
    ultimately show "predict_row movies train row = Inr (?g row)" by (rule predict_row_sim)
  qed
  then have m: "make_predictions movies train test = Inr (map ?g test)"
    unfolding make_predictions_def by (rule mapM_Inr_map)
  have fin: "?g row =
        (let users = filter (\<lambda>r. userId r = userId row) train;
             S = sum_list (map (\<lambda>r. c r * rating r) users);
             W = sum_list (map c users)
         in if 0 < S then fdiv (Fin S) (Fin W)
            else Fin (sum_list (map rating users) / real (length users)))"
    if c: "\<forall>r \<in> set train. sim row r = Fin (c r)" for row c
  proof -
    let ?users = "filter (\<lambda>r. userId r = userId row) train"
    have "map (\<lambda>r. fmul (Fin (rating r)) (sim row r)) ?users =
          map Fin (map (\<lambda>r. c r * rating r) ?users)"
      using c by (simp add: mult.commute)
    moreover have "map (sim row) ?users = map Fin (map c ?users)" using c by simp
    ultimately show ?thesis by (simp only: Let_def fsum_Fin fgt.simps)
  qed
  show ?thesis
    by (rule exI [of _ "map ?g test"]) (use m fin in simp)
qed


theorem make_predictions_weighted_average_witness:
  "make_predictions
     [\<lparr>movie.movieId = 1, genres = ''Horror|Romance'', tokens = [''horror'', ''romance''],
       features = \<lparr>shape1 = 2, indices = [0], data = [Fin 1]\<rparr>\<rparr>,
      \<lparr>movie.movieId = 2, genres = ''Sci-Fi'', tokens = [''sci-fi''],
       features = \<lparr>shape1 = 2, indices = [1], data = [Fin 1]\<rparr>\<rparr>,
      \<lparr>movie.movieId = 3, genres = ''Horror'', tokens = [''horror''],
       features = \<lparr>shape1 = 2, indices = [0], data = [Fin 2]\<rparr>\<rparr>]
     [\<lparr>userId = 9, movieId = 1, rating = 4\<rparr>, \<lparr>userId = 9, movieId = 2, rating = 2\<rparr>,
      \<lparr>userId = 7, movieId = 2, rating = 5\<rparr>]
     [\<lparr>userId = 9, movieId = 3, rating = 3\<rparr>, \<lparr>userId = 7, movieId = 1, rating = 1\<rparr>] =
   Inr [Fin 4, Fin 5]"
proof -
  let ?a = "\<lparr>shape1 = 2, indices = [0], data = [Fin 1]\<rparr>"
  let ?b = "\<lparr>shape1 = 2, indices = [1], data = [Fin 1]\<rparr>"
  let ?c = "\<lparr>shape1 = 2, indices = [0], data = [Fin 2]\<rparr>"
  let ?movies = "[\<lparr>movie.movieId = 1, genres = ''Horror|Romance'', tokens = [''horror'', ''romance''],
       features = ?a\<rparr>,
      \<lparr>movie.movieId = 2, genres = ''Sci-Fi'', tokens = [''sci-fi''], features = ?b\<rparr>,
      \<lparr>movie.movieId = 3, genres = ''Horror'', tokens = [''horror''], features = ?c\<rparr>]"
  let ?train = "[\<lparr>userId = 9, movieId = 1, rating = 4\<rparr>, \<lparr>userId = 9, movieId = 2, rating = 2\<rparr>,
      \<lparr>userId = 7, movieId = 2, rating = 5\<rparr>]"
  let ?test = "[\<lparr>userId = 9, movieId = 3, rating = 3\<rparr>, \<lparr>userId = 7, movieId = 1, rating = 1\<rparr>]"
  let ?sim = "\<lambda>row r. if rating_row.movieId r = 1 \<and> rating_row.movieId row = 3 then Fin 1
                       else Fin 0"
  have n: "[0..<2] = [0, 1]" by (simp add: upt_rec)
  have ev: "cosine_sim ?a ?c = Inr (Fin 1)" "cosine_sim ?b ?c = Inr (Fin 0)"
    "cosine_sim ?b ?a = Inr (Fin 0)"
    by (simp_all add: cosine_sim_Fin finite_data_def l2_norm_def dot_def elem_def n real_sqrt_mult)
  have f: "features_of ?movies 1 = Inr ?a" "features_of ?movies 2 = Inr ?b"
    "features_of ?movies 3 = Inr ?c"
    by (simp_all add: features_of_def first_def)
  have sims: "\<forall>row \<in> set ?test. \<forall>r \<in> set ?train. userId r = userId row \<longrightarrow>
      (\<exists>ft fe. features_of ?movies (rating_row.movieId r) = Inr ft \<and>
               features_of ?movies (rating_row.movieId row) = Inr fe \<and>
               cosine_sim ft fe = Inr (?sim row r))"
    using f ev by simp
  have hist: "\<forall>row \<in> set ?test. \<exists>r \<in> set ?train. userId r = userId row" by simp
  from make_predictions_weighted_average [OF sims hist]
  obtain preds where p: "make_predictions ?movies ?train ?test = Inr preds"
    and l: "length preds = length ?test"
    and v: "\<forall>i < length ?test. preds ! i =
               (let users = filter (\<lambda>r. userId r = userId (?test ! i)) ?train;
                    S = fsum (map (\<lambda>r. fmul (Fin (rating r)) (?sim (?test ! i) r)) users);
                    W = fsum (map (?sim (?test ! i)) users)
                in if fgt S (Fin 0) then fdiv S W
                   else Fin (sum_list (map rating users) / real (length users)))"
    by blast
  from v have "preds ! 0 = Fin 4" by (simp add: fsum_def)
  moreover from v have "preds ! 1 = Fin 5" by (simp add: fsum_def)
  moreover from l have "length preds = 2" by simp
  ultimately have "preds = [Fin 4, Fin 5]"
    by (intro nth_equalityI) (auto simp: less_Suc_eq numeral_2_eq_2)
  with p show ?thesis by simp
qed

subsection \<open>Non-negative weights and the range of predictions\<close>






lemma foldl_fadd_NaN [simp]: "foldl fadd NaN xs = NaN"
  by (induction xs) simp_all

lemma fadd_NaN_right [simp]: "fadd x NaN = NaN"
  by (cases x) simp_all
















end
